theory Spec2Isabelle
  imports Main "HOL-Library.Multiset"
begin

section \<open>Token-sequence packing and re-slicing (c4_sequence_packing.py)\<close>

text \<open>
  The script packs tokenized texts into fixed-capacity blocks (\<open>map_to_batch\<close>) and
  re-slices the leftover shard files into shards of a fixed block count
  (\<open>process_rest\<close>). The two module constants are \<open>BLOCK_SIZE = 512\<close> and
  \<open>SLICE_SIZE = 5000\<close>; every function below takes them as the parameters \<open>bs\<close> and
  \<open>ss\<close>, so that the small scenarios of the specification can be run as well.
  Python's integers are unbounded: lengths, free capacities and positions are \<open>int\<close>,
  list indices and counts of rows are \<open>nat\<close>. The tokenizer is outside the script: the
  raw token lists, the boundary token (\<open>split_value\<close>) and the terminator token
  (\<open>eos\<close>) are inputs. The script uses \<open>np\<close>, \<open>datasets\<close> and
  \<open>GPT2Tokenizer\<close> without importing them; the names are read as numpy and the two
  libraries. The element types of the tensors (\<open>int32\<close> for token ids, \<open>int16\<close> for
  positions, which are below \<open>BLOCK_SIZE = 512\<close>) are not modelled: a tensor is the list
  of its entries.
\<close>

definition BLOCK_SIZE :: int where
  "BLOCK_SIZE = 512"

definition SLICE_SIZE :: nat where
  "SLICE_SIZE = 5000"

type_synonym token = int

subsection \<open>Splitting over-long sequences (lines 34--50)\<close>

text \<open>\<open>np.argwhere(np.array(t) == split_value)\<close>: the positions of the boundary token.\<close>

definition argwhere_eq :: "token list \<Rightarrow> token \<Rightarrow> nat list" where
  "argwhere_eq t v = filter (\<lambda>i. t ! i = v) [0..<length t]"

text \<open>\<open>np.max\<close> of a non-empty array (it raises on an empty one; the loop leaves first).\<close>

definition np_max :: "nat list \<Rightarrow> nat" where
  "np_max xs = fold max (tl xs) (hd xs)"

text \<open>\<open>np.max((dot_pos < (BLOCK_SIZE - 1)) * dot_pos)\<close>: the mask is 1 or 0.\<close>

definition split_pos_of :: "int \<Rightarrow> nat list \<Rightarrow> nat" where
  "split_pos_of bs dot_pos =
     np_max (map (\<lambda>p. (if int p < bs - 1 then 1 else 0) * p) dot_pos)"

text \<open>
  The \<open>while\<close> loop of the \<open>else\<close> branch. The state is the pair of the lists
  \<open>tokenized\<close> and \<open>lengths\<close>, to which the loop appends; \<open>t\<close> is the current
  remainder. Leaving the loop appends nothing.
\<close>

function split_long ::
  "int \<Rightarrow> token \<Rightarrow> token \<Rightarrow> token list \<Rightarrow> token list list \<times> int list
     \<Rightarrow> token list list \<times> int list" where
  "split_long bs split_value eos t (tokenized, lengths) =
     (if int (length t) > bs - 1 then
        (let dot_pos = argwhere_eq t split_value in
         if dot_pos = [] then (tokenized, lengths)
         else (let split_pos = split_pos_of bs dot_pos in
               split_long bs split_value eos (drop (split_pos + 1) t)
                 (tokenized @ [take split_pos t @ [eos]], lengths @ [int split_pos + 1])))
      else (tokenized, lengths))"
  by pat_completeness auto
termination
proof (relation "measure (\<lambda>(bs, split_value, eos, t, st). length t)")
  show "wf (measure (\<lambda>(bs, split_value, eos, t, st). length t))"
    by simp
next
  fix bs :: int and split_value eos :: token and t :: "token list"
    and tokenized :: "token list list" and lengths :: "int list"
    and x :: "nat list" and xa :: nat
  assume "x = argwhere_eq t split_value" and "x \<noteq> []"
  then have "t \<noteq> []"
    by (auto simp: argwhere_eq_def)
  then show "((bs, split_value, eos, drop (xa + 1) t,
               tokenized @ [take xa t @ [eos]], lengths @ [int xa + 1]),
              (bs, split_value, eos, t, tokenized, lengths))
             \<in> measure (\<lambda>(bs, split_value, eos, t, st). length t)"
    by simp
qed

declare split_long.simps [simp del]

text \<open>The body of \<open>for t in raw_tokenized\<close>.\<close>

fun split_one ::
  "int \<Rightarrow> token \<Rightarrow> token \<Rightarrow> token list \<Rightarrow> token list list \<times> int list
     \<Rightarrow> token list list \<times> int list" where
  "split_one bs split_value eos t (tokenized, lengths) =
     (if int (length t) \<le> bs - 1
      then (tokenized @ [t @ [eos]], lengths @ [int (length t) + 1])
      else split_long bs split_value eos t (tokenized, lengths))"

definition splitter ::
  "int \<Rightarrow> token \<Rightarrow> token \<Rightarrow> token list list \<Rightarrow> token list list \<times> int list" where
  "splitter bs split_value eos raw_tokenized =
     fold (split_one bs split_value eos) raw_tokenized ([], [])"

subsection \<open>First-fit-decreasing packing (lines 52--75)\<close>

text \<open>
  \<open>sorted([(l, i) for i, l in enumerate(lengths)], key=lambda x: x[0], reverse=True)\<close>.
  Python's sort is stable, and stays so with \<open>reverse=True\<close>: elements with equal keys
  keep the order they have in the input. \<open>sort_key\<close> is the stable insertion sort of
  the library; descending order is ascending order of the negated length.
\<close>

definition indexed_lengths :: "int list \<Rightarrow> (int \<times> nat) list" where
  "indexed_lengths lengths =
     sort_key (\<lambda>x. - fst x) (map (\<lambda>(i, l). (l, i)) (enumerate 0 lengths))"

type_synonym bin = "(int \<times> nat) list"

text \<open>
  The inner loop \<open>for i in range(len(bins))\<close> with its \<open>break\<close>; the first component
  of the result is the flag \<open>placed\<close>. \<open>bins\<close> and \<open>bin_space\<close> grow together, so
  \<open>bin_space ! i\<close> is in range for every \<open>i < length bins\<close>.
\<close>

fun scan_bins ::
  "nat list \<Rightarrow> int \<times> nat \<Rightarrow> bin list \<times> int list \<Rightarrow> bool \<times> bin list \<times> int list" where
  "scan_bins [] (len, index) (bins, bin_space) = (False, bins, bin_space)"
| "scan_bins (i # ks) (len, index) (bins, bin_space) =
     (if bin_space ! i \<ge> len
      then (True, bins[i := bins ! i @ [(len, index)]], bin_space[i := bin_space ! i - len])
      else scan_bins ks (len, index) (bins, bin_space))"

text \<open>The body of \<open>for length, index in indexed_lengths\<close>.\<close>

fun place :: "int \<Rightarrow> int \<times> nat \<Rightarrow> bin list \<times> int list \<Rightarrow> bin list \<times> int list" where
  "place bs (len, index) (bins, bin_space) =
     (case scan_bins [0..<length bins] (len, index) (bins, bin_space) of
        (placed, bins', bin_space') \<Rightarrow>
          if \<not> placed then (bins' @ [[(len, index)]], bin_space' @ [bs - len])
          else (bins', bin_space'))"

definition first_fit :: "int \<Rightarrow> (int \<times> nat) list \<Rightarrow> bin list \<times> int list" where
  "first_fit bs items = fold (place bs) items ([], [])"

subsection \<open>Building the blocks (lines 77--112)\<close>

datatype error = IndexError | StackError

text \<open>
  The loop \<open>for length, original_idx in _bin\<close>. \<open>tokenized[original_idx]\<close> raises
  IndexError out of range; \<open>list(range(length))\<close> is \<open>[0..len - 1]\<close>, empty when
  \<open>len \<le> 0\<close>.
\<close>

fun combine ::
  "token list list \<Rightarrow> bin \<Rightarrow> token list \<times> int list \<Rightarrow> error + token list \<times> int list" where
  "combine tokenized [] (combined_ids, combined_pos) = Inr (combined_ids, combined_pos)"
| "combine tokenized ((len, original_idx) # rest) (combined_ids, combined_pos) =
     (if original_idx < length tokenized
      then combine tokenized rest
             (combined_ids @ tokenized ! original_idx, combined_pos @ [0..len - 1])
      else Inl IndexError)"

text \<open>\<open>F.pad\<close> on the right, of both tensors, by the \<open>pad_len\<close> of the token ids.\<close>

fun pad :: "int \<Rightarrow> token \<Rightarrow> token list \<times> int list \<Rightarrow> token list \<times> int list" where
  "pad bs eos (ids_tensor, pos_tensor) =
     (let pad_len = bs - int (length ids_tensor) in
      if pad_len > 0
      then (ids_tensor @ replicate (nat pad_len) eos, pos_tensor @ replicate (nat pad_len) 0)
      else (ids_tensor, pos_tensor))"

definition build_block ::
  "int \<Rightarrow> token \<Rightarrow> token list list \<Rightarrow> bin \<Rightarrow> error + token list \<times> int list" where
  "build_block bs eos tokenized b =
     (case combine tokenized b ([], []) of
        Inl e \<Rightarrow> Inl e
      | Inr block \<Rightarrow> Inr (pad bs eos block))"

subsection \<open>Writing the shards (lines 114--136)\<close>

text \<open>
  A shard file holds the dictionary of the two stacked tensors; a tensor is the list of
  its rows. The file names are \<open>train_{idx[0]}_{slice_counter}\<close>, \<open>train_{idx[0]}_rest\<close>
  and, for the second pass, \<open>train_{counter}\<close>.
\<close>

record ('a, 'b) tensor_dict =
  input_ids :: "'a list"
  position_ids :: "'b list"

datatype path = Train_slice nat nat | Train_rest nat | Train nat

text \<open>\<open>torch.stack\<close> raises on an empty list and on tensors of unequal size.\<close>

definition stack :: "'a list list \<Rightarrow> error + 'a list list" where
  "stack tensors =
     (if tensors = [] then Inl StackError
      else if list_all (\<lambda>t. length t = length (hd tensors)) tensors then Inr tensors
      else Inl StackError)"

definition save_shard ::
  "path \<Rightarrow> token list list \<Rightarrow> int list list
     \<Rightarrow> error + path \<times> (token list, int list) tensor_dict" where
  "save_shard file_path ids pos =
     (case stack ids of
        Inl e \<Rightarrow> Inl e
      | Inr i \<Rightarrow>
          (case stack pos of
             Inl e \<Rightarrow> Inl e
           | Inr p \<Rightarrow> Inr (file_path, \<lparr>input_ids = i, position_ids = p\<rparr>)))"

record pack_state =
  out_input_ids :: "token list list"
  out_position_ids :: "int list list"
  slice_counter :: nat
  files :: "(path \<times> (token list, int list) tensor_dict) list"

text \<open>The loop \<open>for _bin in bins\<close>: build the block, buffer it, flush a full shard.\<close>

fun pack_loop ::
  "nat \<Rightarrow> int \<Rightarrow> token \<Rightarrow> nat \<Rightarrow> token list list \<Rightarrow> bin list \<Rightarrow> pack_state
     \<Rightarrow> error + pack_state" where
  "pack_loop ss bs eos idx0 tokenized [] st = Inr st"
| "pack_loop ss bs eos idx0 tokenized (b # bins) st =
     (case build_block bs eos tokenized b of
        Inl e \<Rightarrow> Inl e
      | Inr (ids_tensor, pos_tensor) \<Rightarrow>
          (let st1 = st\<lparr>out_input_ids := out_input_ids st @ [ids_tensor],
                        out_position_ids := out_position_ids st @ [pos_tensor]\<rparr>
           in if length (out_input_ids st1) = ss
              then (case save_shard (Train_slice idx0 (slice_counter st1))
                           (out_input_ids st1) (out_position_ids st1) of
                      Inl e \<Rightarrow> Inl e
                    | Inr f \<Rightarrow>
                        pack_loop ss bs eos idx0 tokenized bins
                          (st1\<lparr>out_input_ids := [], out_position_ids := [],
                               slice_counter := slice_counter st1 + 1,
                               files := files st1 @ [f]\<rparr>))
              else pack_loop ss bs eos idx0 tokenized bins st1))"

text \<open>Lines 52--136: the packer, on the lists \<open>tokenized\<close> and \<open>lengths\<close>.\<close>

definition packer ::
  "nat \<Rightarrow> int \<Rightarrow> token \<Rightarrow> nat \<Rightarrow> token list list \<Rightarrow> int list
     \<Rightarrow> error + (path \<times> (token list, int list) tensor_dict) list" where
  "packer ss bs eos idx0 tokenized lengths =
     (case pack_loop ss bs eos idx0 tokenized (fst (first_fit bs (indexed_lengths lengths)))
             \<lparr>out_input_ids = [], out_position_ids = [], slice_counter = 0, files = []\<rparr> of
        Inl e \<Rightarrow> Inl e
      | Inr st \<Rightarrow>
          if length (out_input_ids st) > 0
          then (case save_shard (Train_rest idx0) (out_input_ids st) (out_position_ids st) of
                  Inl e \<Rightarrow> Inl e
                | Inr f \<Rightarrow> Inr (files st @ [f]))
          else Inr (files st))"

definition map_to_batch ::
  "nat \<Rightarrow> int \<Rightarrow> token \<Rightarrow> token \<Rightarrow> token list list \<Rightarrow> nat
     \<Rightarrow> error + (path \<times> (token list, int list) tensor_dict) list" where
  "map_to_batch ss bs split_value eos raw_tokenized idx0 =
     (case splitter bs split_value eos raw_tokenized of
        (tokenized, lengths) \<Rightarrow> packer ss bs eos idx0 tokenized lengths)"

subsection \<open>Re-slicing the leftover shards (lines 138--190)\<close>

text \<open>
  \<open>read_snappy_safetensor\<close> is file input: each path of \<open>all_files\<close> comes with the
  dictionary read from it. A row of a tensor is opaque to this pass, so the row types
  are parameters. \<open>log\<close> is not a variable of the script: it records the number of rows
  that \<open>input_buffer\<close> holds after each statement that changes the buffer, and at each
  \<open>os.remove\<close>.
\<close>

datatype event = Appended nat | Emitted nat | Removed nat

fun held :: "event \<Rightarrow> nat" where
  "held (Appended n) = n"
| "held (Emitted n) = n"
| "held (Removed n) = n"

record ('a, 'b) reslice_state =
  input_buffer :: "'a list list"
  pos_buffer :: "'b list list"
  buffer_length :: nat
  counter :: nat
  written :: "(path \<times> ('a, 'b) tensor_dict) list"
  removed :: "path list"
  log :: "event list"

text \<open>Steps 1 and 2 of the loop body: read the file and append its tensors.\<close>

definition append_file ::
  "('a, 'b) tensor_dict \<Rightarrow> ('a, 'b) reslice_state \<Rightarrow> ('a, 'b) reslice_state" where
  "append_file tensor_dict st =
     (let new_input = input_ids tensor_dict;
          new_pos = position_ids tensor_dict
      in st\<lparr>input_buffer := input_buffer st @ [new_input],
            pos_buffer := pos_buffer st @ [new_pos],
            buffer_length := buffer_length st + length new_input,
            log := log st @ [Appended (length (concat (input_buffer st @ [new_input])))]\<rparr>)"

text \<open>The body of \<open>while buffer_length >= SLICE_SIZE\<close>; \<open>torch.cat\<close> is \<open>concat\<close>.\<close>

definition emit :: "nat \<Rightarrow> ('a, 'b) reslice_state \<Rightarrow> ('a, 'b) reslice_state" where
  "emit ss st =
     (let full_input = concat (input_buffer st);
          full_pos = concat (pos_buffer st);
          save_input = take ss full_input;
          save_pos = take ss full_pos;
          out_dict = \<lparr>input_ids = save_input, position_ids = save_pos\<rparr>;
          remainder_input = drop ss full_input;
          remainder_pos = drop ss full_pos
      in st\<lparr>written := written st @ [(Train (counter st), out_dict)],
            counter := counter st + 1,
            input_buffer := [remainder_input],
            pos_buffer := [remainder_pos],
            buffer_length := length remainder_input,
            log := log st @ [Emitted (length remainder_input)]\<rparr>)"

text \<open>
  The inner loop. With \<open>SLICE_SIZE = 0\<close> its condition never fails, so the loop is a
  partial function: \<open>None\<close> is a run that does not return.
\<close>

partial_function (option) emit_loop ::
  "nat \<Rightarrow> ('a, 'b) reslice_state \<Rightarrow> ('a, 'b) reslice_state option" where
  "emit_loop ss st =
     (if buffer_length st \<ge> ss then emit_loop ss (emit ss st) else Some st)"

declare emit_loop.simps [code]

text \<open>One turn of the outer loop, for the popped file and what is read from it.\<close>

definition file_step ::
  "nat \<Rightarrow> path \<times> ('a, 'b) tensor_dict \<Rightarrow> ('a, 'b) reslice_state
     \<Rightarrow> ('a, 'b) reslice_state option" where
  "file_step ss = (\<lambda>(file, tensor_dict) st.
     (case emit_loop ss (append_file tensor_dict st) of
        None \<Rightarrow> None
      | Some st' \<Rightarrow>
          Some (st'\<lparr>removed := removed st' @ [file],
                    log := log st' @ [Removed (length (concat (input_buffer st')))]\<rparr>)))"

text \<open>The outer loop \<open>while len(all_files) > 0\<close>; \<open>all_files.pop()\<close> takes the last path.\<close>

function files_loop ::
  "nat \<Rightarrow> (path \<times> ('a, 'b) tensor_dict) list \<Rightarrow> ('a, 'b) reslice_state
     \<Rightarrow> ('a, 'b) reslice_state option" where
  "files_loop ss all_files st =
     (if length all_files > 0
      then (case file_step ss (last all_files) st of
              None \<Rightarrow> None
            | Some st' \<Rightarrow> files_loop ss (butlast all_files) st')
      else Some st)"
  by pat_completeness auto
termination
  by (relation "measure (\<lambda>(ss, all_files, st). length all_files)") auto

declare files_loop.simps [simp del]

definition process_rest ::
  "nat \<Rightarrow> (path \<times> ('a, 'b) tensor_dict) list \<Rightarrow> ('a, 'b) reslice_state option" where
  "process_rest ss all_files =
     files_loop ss all_files
       \<lparr>input_buffer = [], pos_buffer = [], buffer_length = 0, counter = 0,
        written = [], removed = [], log = []\<rparr>"

subsection \<open>Notions of the specification\<close>


text \<open>The tokens a bin holds, and the offsets at which its members start.\<close>

definition occupied :: "bin \<Rightarrow> int" where
  "occupied b = sum_list (map fst b)"

definition member_ids :: "token list list \<Rightarrow> bin \<Rightarrow> token list" where
  "member_ids tokenized b = concat (map (\<lambda>(len, i). tokenized ! i) b)"

definition member_pos :: "bin \<Rightarrow> int list" where
  "member_pos b = concat (map (\<lambda>(len, i). [0..len - 1]) b)"

fun starts :: "nat \<Rightarrow> bin \<Rightarrow> nat list" where
  "starts off [] = []"
| "starts off ((len, i) # b) = off # starts (off + nat len) b"

text \<open>The blocks of a shard file are the pairs of the rows of its two tensors.\<close>

definition blocks :: "('a, 'b) tensor_dict \<Rightarrow> ('a \<times> 'b) list" where
  "blocks d = zip (input_ids d) (position_ids d)"

subsection \<open>Invariants of the packing loop\<close>

text \<open>What the scan keeps true of the bins and their free capacities.\<close>

definition bins_ok :: "int \<Rightarrow> (int \<times> nat) set \<Rightarrow> bin list \<times> int list \<Rightarrow> bool" where
  "bins_ok bs S = (\<lambda>(bins, bin_space).
     length bin_space = length bins \<and>
     (\<forall>k < length bins. bin_space ! k = bs - occupied (bins ! k) \<and> bins ! k \<noteq> []
        \<and> set (bins ! k) \<subseteq> S))"

definition space_ok :: "bin list \<times> int list \<Rightarrow> bool" where
  "space_ok = (\<lambda>(bins, bin_space). \<forall>k < length bins. 0 \<le> bin_space ! k)"

text \<open>What the loop over the bins keeps true of the buffered rows, and the rows written so far.\<close>

definition rows_ok :: "nat \<Rightarrow> pack_state \<Rightarrow> bool" where
  "rows_ok n st =
     (length (out_position_ids st) = length (out_input_ids st)
      \<and> (\<forall>r \<in> set (out_input_ids st). length r = n)
      \<and> (\<forall>r \<in> set (out_position_ids st). length r = n))"

definition all_ids :: "pack_state \<Rightarrow> token list list" where
  "all_ids st = concat (map (\<lambda>f. input_ids (snd f)) (files st)) @ out_input_ids st"

definition all_pos :: "pack_state \<Rightarrow> int list list" where
  "all_pos st = concat (map (\<lambda>f. position_ids (snd f)) (files st)) @ out_position_ids st"

subsection \<open>Invariants of the second pass\<close>

text \<open>
  What the second pass keeps true, with \<open>consumed\<close> the files read so far, in the order
  in which they were read.
\<close>

definition reslice_inv ::
  "nat \<Rightarrow> (path \<times> ('a, 'b) tensor_dict) list \<Rightarrow> ('a, 'b) reslice_state \<Rightarrow> bool" where
  "reslice_inv ss consumed st =
     (buffer_length st = length (concat (input_buffer st))
      \<and> length (concat (pos_buffer st)) = length (concat (input_buffer st))
      \<and> concat (map (\<lambda>f. blocks (snd f)) (written st))
            @ zip (concat (input_buffer st)) (concat (pos_buffer st))
          = concat (map (\<lambda>f. blocks (snd f)) consumed)
      \<and> (\<forall>f \<in> set (written st). length (blocks (snd f)) = ss)
      \<and> map fst (written st) = map Train [0..<length (written st)]
      \<and> counter st = length (written st))"

fun is_removed :: "event \<Rightarrow> bool" where
  "is_removed (Removed n) = True"
| "is_removed e = False"

definition log_ok :: "nat \<Rightarrow> ('a, 'b) reslice_state \<Rightarrow> bool" where
  "log_ok ss st =
     (buffer_length st = length (concat (input_buffer st))
      \<and> (\<forall>e \<in> set (log st). held e \<le> 2 * ss - 1)
      \<and> (\<forall>n. Removed n \<in> set (log st) \<longrightarrow> n < ss)
      \<and> length (filter is_removed (log st)) = length (removed st))"

section \<open>The splitter\<close>


lemma np_max_Max:
  assumes "xs \<noteq> []"
  shows "np_max xs = Max (set xs)"
proof (cases xs)
  case Nil
  then show ?thesis using assms by simp
next
  case (Cons a list)
  then show ?thesis using Max.set_eq_fold [of a list] by (simp add: np_max_def)
qed

lemma split_pos_of_cases:
  assumes "dot_pos \<noteq> []"
  shows "split_pos_of bs dot_pos = 0 \<or>
         (split_pos_of bs dot_pos \<in> set dot_pos \<and> int (split_pos_of bs dot_pos) < bs - 1)"
proof -
  let ?m = "map (\<lambda>p. (if int p < bs - 1 then 1 else 0) * p) dot_pos"
  have ne: "?m \<noteq> []" using assms by simp
  have "Max (set ?m) \<in> set ?m"
    using ne by (intro Max_in) auto
  then obtain p where p: "p \<in> set dot_pos"
    and e: "Max (set ?m) = (if int p < bs - 1 then 1 else 0) * p"
    by auto
  show ?thesis
    using p e np_max_Max [OF ne] by (auto simp: split_pos_of_def split: if_splits)
qed

lemma split_pos_of_greatest:
  assumes "p \<in> set dot_pos" and "int p < bs - 1"
    and "\<And>q. q \<in> set dot_pos \<Longrightarrow> int q < bs - 1 \<Longrightarrow> q \<le> p"
  shows "split_pos_of bs dot_pos = p"
proof -
  let ?f = "\<lambda>p. (if int p < bs - 1 then 1 else 0) * p"
  let ?m = "map ?f dot_pos"
  have ne: "?m \<noteq> []" using assms(1) by auto
  have "Max (set ?m) = p"
  proof (rule Max_eqI)
    show "finite (set ?m)" by simp
    show "p \<in> set ?m" using assms(1,2) by force
    fix y assume "y \<in> set ?m"
    then obtain q where "q \<in> set dot_pos" "y = ?f q" by auto
    then show "y \<le> p" using assms(3) [of q] by (auto split: if_splits)
  qed
  then show ?thesis using np_max_Max [OF ne] by (simp add: split_pos_of_def)
qed

lemma argwhere_eq_set: "set (argwhere_eq t v) = {i. i < length t \<and> t ! i = v}"
  by (auto simp: argwhere_eq_def)

lemma argwhere_eq_nonempty: "argwhere_eq t v \<noteq> [] \<Longrightarrow> t \<noteq> []"
  by (auto simp: argwhere_eq_def)

lemma split_pos_lt_length:
  assumes "argwhere_eq t v \<noteq> []"
  shows "split_pos_of bs (argwhere_eq t v) < length t"
  using split_pos_of_cases [OF assms, of bs] argwhere_eq_nonempty [OF assms]
  by (auto simp: argwhere_eq_set)

lemma split_pos_le_bs:
  assumes "argwhere_eq t v \<noteq> []" and "1 \<le> bs"
  shows "int (split_pos_of bs (argwhere_eq t v)) + 1 \<le> bs"
  using split_pos_of_cases [OF assms(1), of bs] assms(2) by auto

lemma split_long_step:
  assumes "int (length t) > bs - 1" and "argwhere_eq t sv \<noteq> []"
  shows "split_long bs sv eos t (tokenized, lengths) =
     split_long bs sv eos (drop (split_pos_of bs (argwhere_eq t sv) + 1) t)
       (tokenized @ [take (split_pos_of bs (argwhere_eq t sv)) t @ [eos]],
        lengths @ [int (split_pos_of bs (argwhere_eq t sv)) + 1])"
  using assms by (simp add: split_long.simps [of bs sv eos t] Let_def)

lemma split_long_stop:
  assumes "\<not> (int (length t) > bs - 1 \<and> argwhere_eq t sv \<noteq> [])"
  shows "split_long bs sv eos t (tokenized, lengths) = (tokenized, lengths)"
  using assms by (auto simp: split_long.simps [of bs sv eos t] Let_def)

lemma split_long_acc:
  "split_long bs sv eos t (tokenized, lengths) =
     (tokenized @ fst (split_long bs sv eos t ([], [])),
      lengths @ snd (split_long bs sv eos t ([], [])))"
proof (induction t arbitrary: tokenized lengths rule: length_induct)
  case (1 t)
  show ?case
  proof (cases "int (length t) > bs - 1 \<and> argwhere_eq t sv \<noteq> []")
    case False
    then show ?thesis by (simp add: split_long_stop)
  next
    case True
    let ?sp = "split_pos_of bs (argwhere_eq t sv)"
    let ?t' = "drop (?sp + 1) t"
    let ?p = "take ?sp t @ [eos]"
    have "t \<noteq> []" using True argwhere_eq_nonempty by blast
    then have less: "length ?t' < length t" by simp
    have ih: "\<And>tk ls. split_long bs sv eos ?t' (tk, ls) =
        (tk @ fst (split_long bs sv eos ?t' ([], [])),
         ls @ snd (split_long bs sv eos ?t' ([], [])))"
      using "1.IH" less by blast
    have a: "split_long bs sv eos t (tokenized, lengths)
        = split_long bs sv eos ?t' (tokenized @ [?p], lengths @ [int ?sp + 1])"
      using True by (simp add: split_long_step)
    have b: "split_long bs sv eos t ([], [])
        = split_long bs sv eos ?t' ([?p], [int ?sp + 1])"
      using True split_long_step [of bs t sv eos "[]" "[]"] by simp
    show ?thesis
      unfolding a b
      by (subst ih, subst (2 3) ih) simp
  qed
qed

lemma split_long_pieces_step:
  assumes "int (length t) > bs - 1" and "argwhere_eq t sv \<noteq> []"
  shows "fst (split_long bs sv eos t ([], [])) =
           (take (split_pos_of bs (argwhere_eq t sv)) t @ [eos])
           # fst (split_long bs sv eos (drop (split_pos_of bs (argwhere_eq t sv) + 1) t) ([], []))"
    and "snd (split_long bs sv eos t ([], [])) =
           (int (split_pos_of bs (argwhere_eq t sv)) + 1)
           # snd (split_long bs sv eos (drop (split_pos_of bs (argwhere_eq t sv) + 1) t) ([], []))"
proof -
  let ?sp = "split_pos_of bs (argwhere_eq t sv)"
  have "split_long bs sv eos t ([], []) =
          split_long bs sv eos (drop (?sp + 1) t) ([take ?sp t @ [eos]], [int ?sp + 1])"
    using split_long_step [OF assms, of eos "[]" "[]"] by simp
  also have "\<dots> = ([take ?sp t @ [eos]] @ fst (split_long bs sv eos (drop (?sp + 1) t) ([], [])),
                   [int ?sp + 1] @ snd (split_long bs sv eos (drop (?sp + 1) t) ([], [])))"
    by (rule split_long_acc)
  finally have e: "split_long bs sv eos t ([], []) =
      ([take ?sp t @ [eos]] @ fst (split_long bs sv eos (drop (?sp + 1) t) ([], [])),
       [int ?sp + 1] @ snd (split_long bs sv eos (drop (?sp + 1) t) ([], [])))" .
  show "fst (split_long bs sv eos t ([], [])) =
           (take ?sp t @ [eos]) # fst (split_long bs sv eos (drop (?sp + 1) t) ([], []))"
    by (simp add: e)
  show "snd (split_long bs sv eos t ([], [])) =
           (int ?sp + 1) # snd (split_long bs sv eos (drop (?sp + 1) t) ([], []))"
    by (simp add: e)
qed

lemma split_long_lengths:
  "snd (split_long bs sv eos t ([], [])) = map (\<lambda>p. int (length p)) (fst (split_long bs sv eos t ([], [])))"
proof (induction t rule: length_induct)
  case (1 t)
  show ?case
  proof (cases "int (length t) > bs - 1 \<and> argwhere_eq t sv \<noteq> []")
    case False
    then show ?thesis by (simp add: split_long_stop)
  next
    case True
    let ?sp = "split_pos_of bs (argwhere_eq t sv)"
    have lt: "?sp < length t" using True by (simp add: split_pos_lt_length)
    then have "length (drop (?sp + 1) t) < length t" by simp
    then have ih: "snd (split_long bs sv eos (drop (?sp + 1) t) ([], [])) =
        map (\<lambda>p. int (length p)) (fst (split_long bs sv eos (drop (?sp + 1) t) ([], [])))"
      using "1.IH" by blast
    show ?thesis
      using True lt ih by (simp add: split_long_pieces_step min_absorb2)
  qed
qed

lemma split_long_bounds:
  assumes "1 \<le> bs"
  shows "\<forall>p \<in> set (fst (split_long bs sv eos t ([], []))). 1 \<le> length p \<and> int (length p) \<le> bs"
proof (induction t rule: length_induct)
  case (1 t)
  show ?case
  proof (cases "int (length t) > bs - 1 \<and> argwhere_eq t sv \<noteq> []")
    case False
    then show ?thesis by (simp add: split_long_stop)
  next
    case True
    let ?sp = "split_pos_of bs (argwhere_eq t sv)"
    have lt: "?sp < length t" using True by (simp add: split_pos_lt_length)
    have le: "int ?sp + 1 \<le> bs" using True assms by (simp add: split_pos_le_bs)
    have "length (drop (?sp + 1) t) < length t" using lt by simp
    then have ih: "\<forall>p \<in> set (fst (split_long bs sv eos (drop (?sp + 1) t) ([], []))).
        1 \<le> length p \<and> int (length p) \<le> bs"
      using "1.IH" by blast
    show ?thesis
      using True lt le ih by (simp add: split_long_pieces_step(1) min_absorb2)
  qed
qed

lemma split_long_tail_dropped:
  assumes "sv \<notin> set b" and "int (length a) < bs - 1"
    and "int (length (a @ sv # b)) > bs - 1" and "int (length b) \<le> bs - 1"
  shows "split_long bs sv eos (a @ sv # b) (tokenized, lengths)
           = (tokenized @ [a @ [eos]], lengths @ [int (length a) + 1])"
proof -
  let ?t = "a @ sv # b"
  let ?p = "length a"
  have mem: "?p \<in> set (argwhere_eq ?t sv)"
    by (simp add: argwhere_eq_set)
  then have ne: "argwhere_eq ?t sv \<noteq> []" by auto
  have last: "q \<le> ?p" if "q \<in> set (argwhere_eq ?t sv)" for q
  proof (rule ccontr)
    assume "\<not> q \<le> ?p"
    then have gt: "?p < q" by simp
    have q: "q < length ?t" and v: "?t ! q = sv"
      using that by (simp_all add: argwhere_eq_set)
    have "?t ! q = b ! (q - ?p - 1)"
      using gt by (simp add: nth_append nth_Cons')
    moreover have "q - ?p - 1 < length b" using gt q by simp
    ultimately have "sv \<in> set b" using v by (metis nth_mem)
    then show False using assms(1) by simp
  qed
  have sp: "split_pos_of bs (argwhere_eq ?t sv) = ?p"
    using mem assms(2) last by (intro split_pos_of_greatest) simp_all
  have "split_long bs sv eos ?t (tokenized, lengths)
      = split_long bs sv eos b (tokenized @ [a @ [eos]], lengths @ [int ?p + 1])"
    using split_long_step [OF assms(3) ne, of eos tokenized lengths] by (simp add: sp)
  also have "\<dots> = (tokenized @ [a @ [eos]], lengths @ [int ?p + 1])"
    using assms(4) by (intro split_long_stop) simp
  finally show ?thesis .
qed

section \<open>Claims on the splitter\<close>

text \<open>
  C10. A raw sequence of at most \<open>BLOCK_SIZE - 1\<close> tokens takes the first branch: exactly
  one sub-sequence is appended, the raw tokens followed by the terminator, whatever
  boundary tokens they contain; its recorded length is the raw length plus one, which is
  its real length and at most \<open>BLOCK_SIZE\<close>. At raw length \<open>BLOCK_SIZE - 1\<close> the
  recorded length is \<open>BLOCK_SIZE\<close>, and the block built from a bin that holds this
  sub-sequence alone is the sub-sequence itself, with positions \<open>0..BLOCK_SIZE - 1\<close> and
  no padding.
\<close>

theorem short_sequence_single_piece:
  assumes "int (length t) \<le> bs - 1"
  shows "split_one bs sv eos t (tokenized, lengths)
           = (tokenized @ [t @ [eos]], lengths @ [int (length t) + 1])
         \<and> splitter bs sv eos [t] = ([t @ [eos]], [int (length t) + 1])
         \<and> int (length t) + 1 = int (length (t @ [eos]))
         \<and> int (length t) + 1 \<le> bs
         \<and> (int (length t) = bs - 1 \<longrightarrow>
              int (length t) + 1 = bs
              \<and> build_block bs eos (tokenized @ [t @ [eos]]) [(bs, length tokenized)]
                  = Inr (t @ [eos], [0..bs - 1]))"
  using assms by (auto simp: splitter_def build_block_def)

theorem short_sequence_single_piece_witness:
  "int (length [1, 2, 13, 4, 5, 6, 7 :: int]) \<le> 8 - 1
   \<and> int (length [1, 2, 13, 4, 5, 6, 7 :: int]) = 8 - 1
   \<and> splitter 8 13 50256 [[1, 2, 13, 4, 5, 6, 7]] = ([[1, 2, 13, 4, 5, 6, 7, 50256]], [8])
   \<and> build_block 8 50256 ([] @ [[1, 2, 13, 4, 5, 6, 7] @ [50256]]) [(8, length ([] :: token list list))]
       = Inr ([1, 2, 13, 4, 5, 6, 7] @ [50256], [0..8 - 1])"
  using short_sequence_single_piece
    [where t = "[1, 2, 13, 4, 5, 6, 7]" and bs = 8 and sv = 13 and eos = 50256
       and tokenized = "[]" and lengths = "[]"]
  by simp




text \<open>
  C3. The code breaks the claim by a slip. With \<open>BLOCK_SIZE = 512\<close>, take the 601
  tokens made of 300 times the token 7, the boundary token 13 and 300 times the token 9.
  The boundary token stands at position 300, before the limit, so the sequence can be
  split: the loop appends the piece cut there, and then leaves, because the remaining 300
  tokens are no longer over-long; it appends them nowhere, and no token 9 is in any
  emitted sub-sequence. The same 300 tokens handed over as a sequence of their own take
  the other branch and are emitted with the terminator. The same happens with
  \<open>BLOCK_SIZE = 8\<close> on ten tokens.
\<close>

theorem short_remainder_after_last_cut_dropped:
  "int (length (replicate 300 7 @ 13 # replicate 300 (9 :: int))) > BLOCK_SIZE - 1
   \<and> (replicate 300 7 @ 13 # replicate 300 (9 :: int)) ! 300 = 13
   \<and> int 300 < BLOCK_SIZE - 1
   \<and> splitter BLOCK_SIZE 13 50256 [replicate 300 7 @ 13 # replicate 300 9]
       = ([replicate 300 7 @ [50256]], [301])
   \<and> 9 \<notin> set (concat (fst (splitter BLOCK_SIZE 13 50256
                                 [replicate 300 7 @ 13 # replicate 300 9])))
   \<and> splitter BLOCK_SIZE 13 50256 [replicate 300 9] = ([replicate 300 9 @ [50256]], [301])
   \<and> splitter 8 13 50256 [[1, 2, 3, 4, 13, 5, 6, 13, 7, 8]] = ([[1, 2, 3, 4, 50256]], [5])
   \<and> 5 \<notin> set (concat (fst (splitter 8 13 50256 [[1, 2, 3, 4, 13, 5, 6, 13, 7, 8]])))
   \<and> splitter 8 13 50256 [[5, 6, 13, 7, 8]] = ([[5, 6, 13, 7, 8, 50256]], [6])"
proof -
  let ?a = "replicate 300 (7 :: int)"
  let ?b = "replicate 300 (9 :: int)"
  have cut: "split_long BLOCK_SIZE 13 50256 (?a @ 13 # ?b) ([], [])
      = ([] @ [?a @ [50256]], [] @ [int (length ?a) + 1])"
    by (rule split_long_tail_dropped) (simp_all add: BLOCK_SIZE_def)
  have big: "splitter BLOCK_SIZE 13 50256 [?a @ 13 # ?b] = ([?a @ [50256]], [301])"
    using cut by (simp add: splitter_def BLOCK_SIZE_def)
  have tail: "splitter BLOCK_SIZE 13 50256 [?b] = ([?b @ [50256]], [301])"
    by (simp add: splitter_def BLOCK_SIZE_def)
  have small: "splitter 8 13 50256 [[1, 2, 3, 4, 13, 5, 6, 13, 7, 8]]
      = ([[1, 2, 3, 4, 50256]], [5])"
    by (simp add: splitter_def split_long.simps argwhere_eq_def split_pos_of_def np_max_def
          upt_rec [of _ "numeral _"])
  have small_tail: "splitter 8 13 50256 [[5, 6, 13, 7, 8]] = ([[5, 6, 13, 7, 8, 50256]], [6])"
    by (simp add: splitter_def)
  have at: "(?a @ 13 # ?b) ! 300 = 13"
    by (simp add: nth_append)
  show ?thesis
    unfolding big tail small small_tail
    using at by (simp add: BLOCK_SIZE_def)
qed

section \<open>The first-fit scan\<close>

lemma scan_bins_none:
  assumes "\<forall>j \<in> set ks. bin_space ! j < len"
  shows "scan_bins ks (len, index) (bins, bin_space) = (False, bins, bin_space)"
  using assms by (induction ks) auto

lemma scan_bins_first:
  assumes "\<forall>j \<in> set ks1. bin_space ! j < len" and "len \<le> bin_space ! k"
  shows "scan_bins (ks1 @ k # ks2) (len, index) (bins, bin_space) =
           (True, bins[k := bins ! k @ [(len, index)]], bin_space[k := bin_space ! k - len])"
  using assms by (induction ks1) auto

lemma place_new:
  assumes "\<forall>j < length bins. bin_space ! j < len"
  shows "place bs (len, index) (bins, bin_space) =
           (bins @ [[(len, index)]], bin_space @ [bs - len])"
  using assms by (simp add: scan_bins_none)

lemma place_fit:
  assumes "k < length bins" and "len \<le> bin_space ! k" and "\<forall>j < k. bin_space ! j < len"
  shows "place bs (len, index) (bins, bin_space) =
           (bins[k := bins ! k @ [(len, index)]], bin_space[k := bin_space ! k - len])"
proof -
  have "[0..<length bins] = [0..<k] @ k # [Suc k..<length bins]"
    using assms(1) by (metis le0 upt_conv_Cons upt_add_eq_append le_add_diff_inverse less_imp_le_nat)
  then show ?thesis
    using assms scan_bins_first [of "[0..<k]" bin_space len k "[Suc k..<length bins]" index bins]
    by simp
qed

declare place.simps [simp del]

lemma place_cases:
  obtains (fit) k where "k < length bins" and "len \<le> bin_space ! k"
      and "\<forall>j < k. bin_space ! j < len"
      and "place bs (len, index) (bins, bin_space) =
           (bins[k := bins ! k @ [(len, index)]], bin_space[k := bin_space ! k - len])"
  | (new) "\<forall>j < length bins. bin_space ! j < len"
      and "place bs (len, index) (bins, bin_space) =
           (bins @ [[(len, index)]], bin_space @ [bs - len])"
proof (cases "\<exists>k. k < length bins \<and> len \<le> bin_space ! k")
  case True
  then obtain k where k: "k < length bins \<and> len \<le> bin_space ! k"
    and least: "\<forall>m < k. \<not> (m < length bins \<and> len \<le> bin_space ! m)"
    using exists_least_iff [of "\<lambda>k. k < length bins \<and> len \<le> bin_space ! k"] by blast
  have below: "\<forall>j < k. bin_space ! j < len"
  proof (intro allI impI)
    fix j assume "j < k"
    then have "\<not> (j < length bins \<and> len \<le> bin_space ! j)" using least by blast
    moreover have "j < length bins" using \<open>j < k\<close> k by simp
    ultimately show "bin_space ! j < len" by simp
  qed
  have "place bs (len, index) (bins, bin_space) =
           (bins[k := bins ! k @ [(len, index)]], bin_space[k := bin_space ! k - len])"
    using k below by (intro place_fit) simp_all
  then show ?thesis
    using fit [of k] k below by simp
next
  case False
  then have none: "\<forall>j < length bins. bin_space ! j < len"
    by (metis not_le)
  then have "place bs (len, index) (bins, bin_space) =
           (bins @ [[(len, index)]], bin_space @ [bs - len])"
    by (rule place_new)
  then show ?thesis using new none by simp
qed

lemma fold_invariant:
  assumes "P s" and "\<And>x s. x \<in> set xs \<Longrightarrow> P s \<Longrightarrow> P (f x s)"
  shows "P (fold f xs s)"
  using assms by (induction xs arbitrary: s) auto

lemma first_fit_snoc: "first_fit bs (items @ [x]) = place bs x (first_fit bs items)"
  by (simp add: first_fit_def)

lemma occupied_snoc: "occupied (b @ [(len, index)]) = occupied b + len"
  by (simp add: occupied_def)

lemma bins_ok_place:
  assumes "bins_ok bs S st" and "x \<in> S"
  shows "bins_ok bs S (place bs x st)"
proof -
  obtain bins bin_space where st: "st = (bins, bin_space)" by (cases st)
  obtain len index where x: "x = (len, index)" by (cases x)
  have ok: "length bin_space = length bins"
    "\<And>k. k < length bins \<Longrightarrow> bin_space ! k = bs - occupied (bins ! k) \<and> bins ! k \<noteq> []
        \<and> set (bins ! k) \<subseteq> S"
    using assms(1) by (auto simp: bins_ok_def st)
  show ?thesis
  proof (cases rule: place_cases [of bins len bin_space bs index])
    case (fit k)
    show ?thesis
      unfolding st x fit(4) bins_ok_def
      using ok fit(1) assms(2) x
      by (auto simp: nth_list_update occupied_snoc)
  next
    case new
    show ?thesis
      unfolding st x new(2) bins_ok_def
      using ok assms(2) x
      by (auto simp: nth_append occupied_def)
  qed
qed

lemma bins_ok_first_fit: "bins_ok bs (set items) (first_fit bs items)"
  unfolding first_fit_def
proof (rule fold_invariant)
  show "bins_ok bs (set items) ([], [])"
    by (simp add: bins_ok_def)
next
  fix x s
  assume "x \<in> set items" and "bins_ok bs (set items) s"
  then show "bins_ok bs (set items) (place bs x s)"
    by (simp add: bins_ok_place)
qed

lemma space_ok_place:
  assumes "space_ok st" and "fst x \<le> bs" and "length (snd st) = length (fst st)"
  shows "space_ok (place bs x st)"
proof -
  obtain bins bin_space where st: "st = (bins, bin_space)" by (cases st)
  obtain len index where x: "x = (len, index)" by (cases x)
  show ?thesis
  proof (cases rule: place_cases [of bins len bin_space bs index])
    case (fit k)
    show ?thesis
      unfolding st x fit(4) space_ok_def
      using assms fit(1,2) by (auto simp: nth_list_update st space_ok_def)
  next
    case new
    show ?thesis
      unfolding st x new(2) space_ok_def
      using assms by (auto simp: nth_append st x space_ok_def)
  qed
qed

lemma space_ok_first_fit:
  assumes "\<forall>x \<in> set items. fst x \<le> bs"
  shows "space_ok (first_fit bs items)"
proof -
  have "space_ok (first_fit bs items) \<and> bins_ok bs (set items) (first_fit bs items)"
    unfolding first_fit_def
  proof (rule fold_invariant)
    show "space_ok ([], []) \<and> bins_ok bs (set items) ([], [])"
      by (simp add: space_ok_def bins_ok_def)
  next
    fix x s
    assume "x \<in> set items" and "space_ok s \<and> bins_ok bs (set items) s"
    then have a: "x \<in> set items" and b: "space_ok s" and c: "bins_ok bs (set items) s"
      by simp_all
    have "length (snd s) = length (fst s)"
      using c by (cases s) (simp add: bins_ok_def)
    then have "space_ok (place bs x s)"
      using a b assms by (intro space_ok_place) auto
    moreover have "bins_ok bs (set items) (place bs x s)"
      using a c by (rule bins_ok_place [rotated])
    ultimately show "space_ok (place bs x s) \<and> bins_ok bs (set items) (place bs x s)"
      by simp
  qed
  then show ?thesis by simp
qed

lemma set_indexed_lengths:
  "set (indexed_lengths lengths) = {(lengths ! i, i) | i. i < length lengths}"
  by (auto simp: indexed_lengths_def in_set_enumerate_eq image_iff)

section \<open>The order of placement\<close>

lemma sorted_indexed_lengths:
  "sorted_wrt (\<lambda>x y. fst x \<ge> fst y) (indexed_lengths lengths)"
proof -
  have "sorted (map (\<lambda>x. - fst x) (indexed_lengths lengths))"
    by (simp add: indexed_lengths_def)
  then show ?thesis
    by (simp add: sorted_wrt_map)
qed

lemma mset_indexed_lengths:
  "mset (indexed_lengths lengths) = mset (map (\<lambda>(i, l). (l, i)) (enumerate 0 lengths))"
  by (simp add: indexed_lengths_def)

lemma stable_indexed_lengths:
  "filter (\<lambda>x. fst x = k) (indexed_lengths lengths)
     = filter (\<lambda>x. fst x = k) (map (\<lambda>(i, l). (l, i)) (enumerate 0 lengths))"
proof -
  have "filter (\<lambda>x. - fst x = - k) (indexed_lengths lengths)
     = filter (\<lambda>x. - fst x = - k) (map (\<lambda>(i, l). (l, i)) (enumerate 0 lengths))"
    unfolding indexed_lengths_def by (rule sort_key_stable)
  then show ?thesis by simp
qed

lemma scenario_1:
  "first_fit 8 (indexed_lengths [5, 3, 3, 2]) = ([[(5, 0), (3, 1)], [(3, 2), (2, 3)]], [0, 3])"
  by (simp add: indexed_lengths_def first_fit_def place.simps)

lemma sorted_wrt_filter_nth:
  assumes "sorted_wrt P (filter Q xs)" and "i < j" and "j < length xs"
    and "Q (xs ! i)" and "Q (xs ! j)"
  shows "P (xs ! i) (xs ! j)"
  using assms
proof (induction xs arbitrary: i j)
  case Nil
  then show ?case by simp
next
  case (Cons x xs)
  obtain j' where j: "j = Suc j'" using Cons.prems(2) by (cases j) auto
  show ?case
  proof (cases i)
    case 0
    have "xs ! j' \<in> set (filter Q xs)"
      using Cons.prems j by simp
    then show ?thesis
      using Cons.prems 0 j by simp
  next
    case (Suc i')
    have "sorted_wrt P (filter Q xs)"
      using Cons.prems(1) by (cases "Q x") simp_all
    then have "P (xs ! i') (xs ! j')"
      using Cons.prems Suc j by (intro Cons.IH) simp_all
    then show ?thesis by (simp add: Suc j)
  qed
qed

lemma enumerate_swapped_ascending:
  "sorted_wrt (\<lambda>x y. snd x < snd y) (map (\<lambda>(i, l). (l, i)) (enumerate n lengths))"
proof (induction lengths arbitrary: n)
  case Nil
  then show ?case by simp
next
  case (Cons l lengths)
  have "\<forall>y \<in> set (enumerate (Suc n) lengths). n < fst y"
    by (auto simp: in_set_enumerate_eq)
  then show ?case
    using Cons.IH [of "Suc n"] by (auto simp: case_prod_unfold)
qed

lemma equal_lengths_keep_order:
  assumes "i < j" and "j < length (indexed_lengths lengths)"
    and "fst (indexed_lengths lengths ! i) = fst (indexed_lengths lengths ! j)"
  shows "snd (indexed_lengths lengths ! i) < snd (indexed_lengths lengths ! j)"
proof -
  let ?il = "indexed_lengths lengths"
  let ?k = "fst (?il ! j)"
  have "sorted_wrt (\<lambda>x y. snd x < snd y) (filter (\<lambda>x. fst x = ?k) ?il)"
    unfolding stable_indexed_lengths
    by (intro sorted_wrt_filter enumerate_swapped_ascending)
  then show ?thesis
    using assms by (intro sorted_wrt_filter_nth [where P = "\<lambda>x y. snd x < snd y"
          and Q = "\<lambda>x. fst x = ?k" and xs = ?il]) simp_all
qed

lemma stable_sort_unique:
  assumes "mset ys = mset (map (\<lambda>(i, l). (l, i)) (enumerate 0 lengths))"
    and "sorted_wrt (\<lambda>x y. fst x \<ge> fst y) ys"
    and "\<forall>k. filter (\<lambda>x. fst x = k) ys
            = filter (\<lambda>x. fst x = k) (map (\<lambda>(i, l). (l, i)) (enumerate 0 lengths))"
  shows "ys = indexed_lengths lengths"
proof -
  have "sort_key (\<lambda>x. - fst x) (map (\<lambda>(i, l). (l, i)) (enumerate 0 lengths)) = ys"
  proof (rule properties_for_sort_key)
    show "mset ys = mset (map (\<lambda>(i, l). (l, i)) (enumerate 0 lengths))"
      by (rule assms(1))
    show "sorted (map (\<lambda>x. - fst x) ys)"
      using assms(2) by (simp add: sorted_wrt_map)
    fix k assume "k \<in> set ys"
    have "filter (\<lambda>x. fst x = fst k) ys
            = filter (\<lambda>x. fst x = fst k) (map (\<lambda>(i, l). (l, i)) (enumerate 0 lengths))"
      using assms(3) by blast
    moreover have "(\<lambda>x. - fst k = - fst x) = (\<lambda>x :: int \<times> nat. fst x = fst k)"
      by auto
    ultimately show "filter (\<lambda>x. - fst k = - fst x) ys
        = filter (\<lambda>x. - fst k = - fst x) (map (\<lambda>(i, l). (l, i)) (enumerate 0 lengths))"
      by simp
  qed
  then show ?thesis by (simp add: indexed_lengths_def)
qed


section \<open>Claims on the packing order\<close>

text \<open>
  C9. The packer is a function of the batch and of the two constants: the script draws on
  no source of variation (no hashing, no iteration over a set, no clock, no concurrency
  inside a batch). The order of placement is the stable descending order: it is sorted by
  descending length, and two sequences of equal length stand in the order of their
  original indices. This order is the only one with these properties, so any sort that is
  descending and stable leads to the same bins.
\<close>

theorem packing_order_stable_and_unique:
  "sorted_wrt (\<lambda>x y. fst x \<ge> fst y) (indexed_lengths lengths)
   \<and> (\<forall>i j. i < j \<and> j < length (indexed_lengths lengths)
          \<and> fst (indexed_lengths lengths ! i) = fst (indexed_lengths lengths ! j)
        \<longrightarrow> snd (indexed_lengths lengths ! i) < snd (indexed_lengths lengths ! j))
   \<and> (mset ys = mset (map (\<lambda>(i, l). (l, i)) (enumerate 0 lengths))
      \<and> sorted_wrt (\<lambda>x y. fst x \<ge> fst y) ys
      \<and> (\<forall>k. filter (\<lambda>x. fst x = k) ys
              = filter (\<lambda>x. fst x = k) (map (\<lambda>(i, l). (l, i)) (enumerate 0 lengths)))
      \<longrightarrow> ys = indexed_lengths lengths
          \<and> first_fit bs ys = first_fit bs (indexed_lengths lengths)
          \<and> packer ss bs eos part tokenized lengths
              = (case pack_loop ss bs eos part tokenized (fst (first_fit bs ys))
                       \<lparr>out_input_ids = [], out_position_ids = [], slice_counter = 0,
                        files = []\<rparr> of
                   Inl e \<Rightarrow> Inl e
                 | Inr st \<Rightarrow>
                     if length (out_input_ids st) > 0
                     then (case save_shard (Train_rest part) (out_input_ids st)
                                  (out_position_ids st) of
                             Inl e \<Rightarrow> Inl e
                           | Inr f \<Rightarrow> Inr (files st @ [f]))
                     else Inr (files st)))"
proof (intro conjI impI allI)
  show "sorted_wrt (\<lambda>x y. fst x \<ge> fst y) (indexed_lengths lengths)"
    by (rule sorted_indexed_lengths)
next
  fix i j
  assume "i < j \<and> j < length (indexed_lengths lengths)
          \<and> fst (indexed_lengths lengths ! i) = fst (indexed_lengths lengths ! j)"
  then show "snd (indexed_lengths lengths ! i) < snd (indexed_lengths lengths ! j)"
    by (intro equal_lengths_keep_order) simp_all
next
  assume a: "mset ys = mset (map (\<lambda>(i, l). (l, i)) (enumerate 0 lengths))
      \<and> sorted_wrt (\<lambda>x y. fst x \<ge> fst y) ys
      \<and> (\<forall>k. filter (\<lambda>x. fst x = k) ys
              = filter (\<lambda>x. fst x = k) (map (\<lambda>(i, l). (l, i)) (enumerate 0 lengths)))"
  then show e: "ys = indexed_lengths lengths"
    by (intro stable_sort_unique) simp_all
  show "first_fit bs ys = first_fit bs (indexed_lengths lengths)"
    by (simp add: e)
  show "packer ss bs eos part tokenized lengths
              = (case pack_loop ss bs eos part tokenized (fst (first_fit bs ys))
                       \<lparr>out_input_ids = [], out_position_ids = [], slice_counter = 0,
                        files = []\<rparr> of
                   Inl e \<Rightarrow> Inl e
                 | Inr st \<Rightarrow>
                     if length (out_input_ids st) > 0
                     then (case save_shard (Train_rest part) (out_input_ids st)
                                  (out_position_ids st) of
                             Inl e \<Rightarrow> Inl e
                           | Inr f \<Rightarrow> Inr (files st @ [f]))
                     else Inr (files st))"
    unfolding e packer_def by (rule refl)
qed

theorem packing_order_stable_and_unique_witness:
  "indexed_lengths [3, 5, 3] = [(5, 1), (3, 0), (3, 2)]
   \<and> fst (indexed_lengths [3, 5, 3] ! 1) = fst (indexed_lengths [3, 5, 3] ! 2)
   \<and> snd (indexed_lengths [3, 5, 3] ! 1) < snd (indexed_lengths [3, 5, 3] ! 2)
   \<and> first_fit 8 [(5, 1), (3, 0), (3, 2)] = first_fit 8 (indexed_lengths [3, 5, 3])"
proof -
  let ?ys = "[(5, 1), (3, 0), (3, 2)] :: (int \<times> nat) list"
  let ?ls = "[3, 5, 3] :: int list"
  have il: "indexed_lengths ?ls = ?ys"
    by (simp add: indexed_lengths_def)
  have h1: "mset ?ys = mset (map (\<lambda>(i, l). (l, i)) (enumerate 0 ?ls))"
    by simp
  have h2: "sorted_wrt (\<lambda>x y. fst x \<ge> fst y) ?ys"
    by simp
  have h3: "\<forall>k. filter (\<lambda>x. fst x = k) ?ys
              = filter (\<lambda>x. fst x = k) (map (\<lambda>(i, l). (l, i)) (enumerate 0 ?ls))"
    by simp
  have h4: "(1 :: nat) < 2 \<and> 2 < length (indexed_lengths ?ls)
          \<and> fst (indexed_lengths ?ls ! 1) = fst (indexed_lengths ?ls ! 2)"
    by (simp add: il)
  have t: "(\<forall>i j. i < j \<and> j < length (indexed_lengths ?ls)
          \<and> fst (indexed_lengths ?ls ! i) = fst (indexed_lengths ?ls ! j)
        \<longrightarrow> snd (indexed_lengths ?ls ! i) < snd (indexed_lengths ?ls ! j))
      \<and> first_fit 8 ?ys = first_fit 8 (indexed_lengths ?ls)"
    using packing_order_stable_and_unique
      [where lengths = ?ls and ys = ?ys and bs = 8 and ss = 2 and eos = 0 and part = 0
         and tokenized = "[]"] h1 h2 h3
    by blast
  then have "snd (indexed_lengths ?ls ! 1) < snd (indexed_lengths ?ls ! 2)"
    using h4 by blast
  then show ?thesis
    using il t by simp
qed

section \<open>The blocks\<close>

lemma member_ids_Cons:
  "member_ids tokenized ((len, i) # b) = tokenized ! i @ member_ids tokenized b"
  by (simp add: member_ids_def)

lemma member_pos_Cons: "member_pos ((len, i) # b) = [0..len - 1] @ member_pos b"
  by (simp add: member_pos_def)

lemma occupied_Cons: "occupied ((len, i) # b) = len + occupied b"
  by (simp add: occupied_def)

lemma combine_in_range:
  assumes "\<forall>x \<in> set b. snd x < length tokenized"
  shows "combine tokenized b (ids, pos)
           = Inr (ids @ member_ids tokenized b, pos @ member_pos b)"
  using assms
proof (induction b arbitrary: ids pos)
  case Nil
  then show ?case by (simp add: member_ids_def member_pos_def)
next
  case (Cons x b)
  obtain len i where x: "x = (len, i)" by (cases x)
  have "i < length tokenized" using Cons.prems x by simp
  moreover have "combine tokenized b (ids @ tokenized ! i, pos @ [0..len - 1])
      = Inr ((ids @ tokenized ! i) @ member_ids tokenized b,
             (pos @ [0..len - 1]) @ member_pos b)"
    using Cons.prems by (intro Cons.IH) simp
  ultimately show ?case
    by (simp add: x member_ids_Cons member_pos_Cons)
qed

lemma length_member_ids:
  assumes "\<forall>x \<in> set b. fst x = int (length (tokenized ! snd x))"
  shows "int (length (member_ids tokenized b)) = occupied b"
  using assms
proof (induction b)
  case Nil
  then show ?case by (simp add: member_ids_def occupied_def)
next
  case (Cons x b)
  obtain len i where x: "x = (len, i)" by (cases x)
  show ?case
    using Cons by (simp add: x member_ids_Cons occupied_Cons)
qed

lemma length_member_pos:
  assumes "\<forall>x \<in> set b. 0 \<le> fst x"
  shows "int (length (member_pos b)) = occupied b"
  using assms
proof (induction b)
  case Nil
  then show ?case by (simp add: member_pos_def occupied_def)
next
  case (Cons x b)
  obtain len i where x: "x = (len, i)" by (cases x)
  show ?case
    using Cons by (simp add: x member_pos_Cons occupied_Cons)
qed

lemma build_block_in_range:
  assumes "\<forall>x \<in> set b. snd x < length tokenized"
  shows "build_block bs eos tokenized b =
     Inr (member_ids tokenized b
            @ replicate (nat (bs - int (length (member_ids tokenized b)))) eos,
          member_pos b @ replicate (nat (bs - int (length (member_ids tokenized b)))) 0)"
  using combine_in_range [OF assms, of "[]" "[]"]
  by (simp add: build_block_def Let_def)

lemma first_fit_members:
  assumes "b \<in> set (fst (first_fit bs (indexed_lengths lengths)))"
  shows "b \<noteq> [] \<and> (\<forall>x \<in> set b. snd x < length lengths \<and> fst x = lengths ! snd x)"
proof -
  obtain bins bin_space where ff: "first_fit bs (indexed_lengths lengths) = (bins, bin_space)"
    by (cases "first_fit bs (indexed_lengths lengths)")
  obtain k where k: "k < length bins" "b = bins ! k"
    using assms ff by (auto simp: in_set_conv_nth)
  have "bins ! k \<noteq> [] \<and> set (bins ! k) \<subseteq> set (indexed_lengths lengths)"
    using bins_ok_first_fit [of bs "indexed_lengths lengths"] k(1)
    by (simp add: ff bins_ok_def)
  then show ?thesis
    using k(2) by (auto simp: set_indexed_lengths)
qed

lemma first_fit_occupied:
  assumes "b \<in> set (fst (first_fit bs (indexed_lengths lengths)))"
    and "\<forall>l \<in> set lengths. l \<le> bs"
  shows "occupied b \<le> bs"
proof -
  obtain bins bin_space where ff: "first_fit bs (indexed_lengths lengths) = (bins, bin_space)"
    by (cases "first_fit bs (indexed_lengths lengths)")
  obtain k where k: "k < length bins" "b = bins ! k"
    using assms(1) ff by (auto simp: in_set_conv_nth)
  have "\<forall>x \<in> set (indexed_lengths lengths). fst x \<le> bs"
    using assms(2) by (auto simp: set_indexed_lengths)
  then have "space_ok (first_fit bs (indexed_lengths lengths))"
    by (rule space_ok_first_fit)
  then have "0 \<le> bin_space ! k"
    using k(1) by (simp add: ff space_ok_def)
  moreover have "bin_space ! k = bs - occupied (bins ! k)"
    using bins_ok_first_fit [of bs "indexed_lengths lengths"] k(1)
    by (simp add: ff bins_ok_def)
  ultimately show ?thesis using k(2) by simp
qed

lemma starts_ge: "x \<in> set (starts off b) \<Longrightarrow> off \<le> x"
proof (induction b arbitrary: off)
  case Nil
  then show ?case by simp
next
  case (Cons y b)
  obtain len i where y: "y = (len, i)" by (cases y)
  show ?case
    using Cons.prems Cons.IH [of "off + nat len"] by (auto simp: y)
qed

lemma upto_nth_zero:
  assumes "j < nat len"
  shows "([0..len - 1] ! j = 0) = (j = 0)"
proof -
  have "[0..len - 1] ! j = 0 + int j"
    using assms by (intro nth_upto) simp
  then show ?thesis by simp
qed

lemma member_pos_zero_iff:
  assumes "\<forall>x \<in> set b. 1 \<le> fst x" and "j < length (member_pos b)"
  shows "(member_pos b ! j = 0) = (off + j \<in> set (starts off b))"
  using assms
proof (induction b arbitrary: j off)
  case Nil
  then show ?case by (simp add: member_pos_def)
next
  case (Cons y b)
  obtain len i where y: "y = (len, i)" by (cases y)
  have len: "1 \<le> len" using Cons.prems(1) y by simp
  have l: "length [0..len - 1] = nat len" using len by simp
  show ?case
  proof (cases "j < nat len")
    case True
    have "member_pos (y # b) ! j = [0..len - 1] ! j"
      using True l by (simp add: y member_pos_Cons nth_append)
    then have a: "(member_pos (y # b) ! j = 0) = (j = 0)"
      using upto_nth_zero [OF True] by simp
    have "off + j \<notin> set (starts (off + nat len) b)"
      using starts_ge [of "off + j" "off + nat len" b] True by auto
    then have "(off + j \<in> set (starts off (y # b))) = (j = 0)"
      by (simp add: y)
    then show ?thesis using a by simp
  next
    case False
    then have ge: "nat len \<le> j" by simp
    have "member_pos (y # b) ! j = member_pos b ! (j - nat len)"
      using False l by (simp add: y member_pos_Cons nth_append)
    moreover have "j - nat len < length (member_pos b)"
      using Cons.prems(2) ge l by (simp add: y member_pos_Cons)
    then have "(member_pos b ! (j - nat len) = 0)
        = ((off + nat len) + (j - nat len) \<in> set (starts (off + nat len) b))"
      using Cons.prems(1) by (intro Cons.IH) simp_all
    moreover have "(off + nat len) + (j - nat len) = off + j" using ge by simp
    moreover have "off + j \<noteq> off" using ge len by simp
    ultimately show ?thesis by (simp add: y)
  qed
qed

lemma splitter_wf_step:
  assumes "1 \<le> bs"
    and "snd st = map (\<lambda>s. int (length s)) (fst st)"
    and "\<forall>s \<in> set (fst st). s \<noteq> [] \<and> int (length s) \<le> bs"
  shows "snd (split_one bs sv eos t st) = map (\<lambda>s. int (length s)) (fst (split_one bs sv eos t st))
     \<and> (\<forall>s \<in> set (fst (split_one bs sv eos t st)). s \<noteq> [] \<and> int (length s) \<le> bs)"
proof -
  obtain tokenized lengths where st: "st = (tokenized, lengths)" by (cases st)
  show ?thesis
  proof (cases "int (length t) \<le> bs - 1")
    case True
    then show ?thesis using assms by (simp add: st)
  next
    case False
    have e: "split_one bs sv eos t st =
        (tokenized @ fst (split_long bs sv eos t ([], [])),
         lengths @ snd (split_long bs sv eos t ([], [])))"
      using False split_long_acc [of bs sv eos t tokenized lengths] by (simp add: st)
    have b: "\<forall>p \<in> set (fst (split_long bs sv eos t ([], []))). 1 \<le> length p \<and> int (length p) \<le> bs"
      using assms(1) by (rule split_long_bounds)
    show ?thesis
      unfolding e using assms(2,3) b split_long_lengths [of bs sv eos t]
      by (auto simp: st)
  qed
qed

lemma splitter_wf:
  assumes "1 \<le> bs"
  shows "snd (splitter bs sv eos raw) = map (\<lambda>s. int (length s)) (fst (splitter bs sv eos raw))
     \<and> (\<forall>s \<in> set (fst (splitter bs sv eos raw)). s \<noteq> [] \<and> int (length s) \<le> bs)"
  unfolding splitter_def
proof (rule fold_invariant)
  show "snd ([], []) = map (\<lambda>s. int (length s)) (fst ([] :: token list list, [] :: int list))
     \<and> (\<forall>s \<in> set (fst ([] :: token list list, [] :: int list)). s \<noteq> [] \<and> int (length s) \<le> bs)"
    by simp
next
  fix x :: "token list" and s :: "token list list \<times> int list"
  assume "x \<in> set raw"
    and "snd s = map (\<lambda>s. int (length s)) (fst s)
     \<and> (\<forall>p \<in> set (fst s). p \<noteq> [] \<and> int (length p) \<le> bs)"
  then show "snd (split_one bs sv eos x s) = map (\<lambda>s. int (length s)) (fst (split_one bs sv eos x s))
     \<and> (\<forall>p \<in> set (fst (split_one bs sv eos x s)). p \<noteq> [] \<and> int (length p) \<le> bs)"
    using splitter_wf_step [OF assms, of s sv eos x] by blast
qed

lemma stack_equal_rows:
  assumes "ts \<noteq> []" and "\<forall>t \<in> set ts. length t = n"
  shows "stack ts = Inr ts"
proof -
  have "hd ts \<in> set ts" using assms(1) by simp
  then have "length (hd ts) = n" using assms(2) by blast
  then show ?thesis
    using assms by (simp add: stack_def list_all_iff)
qed

lemma save_shard_equal_rows:
  assumes "ids \<noteq> []" and "\<forall>t \<in> set ids. length t = n"
    and "pos \<noteq> []" and "\<forall>t \<in> set pos. length t = n"
  shows "save_shard file_path ids pos = Inr (file_path, \<lparr>input_ids = ids, position_ids = pos\<rparr>)"
  using stack_equal_rows [OF assms(1,2)] stack_equal_rows [OF assms(3,4)]
  by (simp add: save_shard_def)

lemma pack_loop_blocks:
  assumes "\<forall>b \<in> set bins. build_block bs eos tokenized b = Inr (I b, P b)
             \<and> length (I b) = n \<and> length (P b) = n"
    and "rows_ok n st"
  shows "\<exists>st'. pack_loop ss bs eos part tokenized bins st = Inr st' \<and> rows_ok n st'
           \<and> all_ids st' = all_ids st @ map I bins
           \<and> all_pos st' = all_pos st @ map P bins"
  using assms
proof (induction bins arbitrary: st)
  case Nil
  then show ?case by simp
next
  case (Cons b bins)
  have bb: "build_block bs eos tokenized b = Inr (I b, P b)"
    and li: "length (I b) = n" and lp: "length (P b) = n"
    using Cons.prems(1) by simp_all
  define st1 where "st1 = st\<lparr>out_input_ids := out_input_ids st @ [I b],
                        out_position_ids := out_position_ids st @ [P b]\<rparr>"
  have ok1: "rows_ok n st1"
    using Cons.prems(2) li lp by (auto simp: rows_ok_def st1_def)
  have ids1: "all_ids st1 = all_ids st @ [I b]"
    and pos1: "all_pos st1 = all_pos st @ [P b]"
    by (simp_all add: all_ids_def all_pos_def st1_def)
  have rest: "\<forall>b \<in> set bins. build_block bs eos tokenized b = Inr (I b, P b)
             \<and> length (I b) = n \<and> length (P b) = n"
    using Cons.prems(1) by simp
  have unfold: "pack_loop ss bs eos part tokenized (b # bins) st =
      (if length (out_input_ids st1) = ss
       then (case save_shard (Train_slice part (slice_counter st1))
                    (out_input_ids st1) (out_position_ids st1) of
               Inl e \<Rightarrow> Inl e
             | Inr f \<Rightarrow>
                 pack_loop ss bs eos part tokenized bins
                   (st1\<lparr>out_input_ids := [], out_position_ids := [],
                        slice_counter := slice_counter st1 + 1,
                        files := files st1 @ [f]\<rparr>))
       else pack_loop ss bs eos part tokenized bins st1)"
    unfolding st1_def by (simp add: bb Let_def)
  show ?case
  proof (cases "length (out_input_ids st1) = ss")
    case False
    then have step: "pack_loop ss bs eos part tokenized (b # bins) st
        = pack_loop ss bs eos part tokenized bins st1"
      unfolding unfold by simp
    obtain st' where "pack_loop ss bs eos part tokenized bins st1 = Inr st'"
      and "rows_ok n st'" and "all_ids st' = all_ids st1 @ map I bins"
      and "all_pos st' = all_pos st1 @ map P bins"
      using Cons.IH [OF rest ok1] by blast
    then show ?thesis
      unfolding step by (simp add: ids1 pos1)
  next
    case True
    define f where "f = (Train_slice part (slice_counter st1),
       \<lparr>input_ids = out_input_ids st1, position_ids = out_position_ids st1\<rparr>)"
    define st2 where "st2 = st1\<lparr>out_input_ids := [], out_position_ids := [],
                               slice_counter := slice_counter st1 + 1,
                               files := files st1 @ [f]\<rparr>"
    have ne: "out_input_ids st1 \<noteq> []" "out_position_ids st1 \<noteq> []"
      by (simp_all add: st1_def)
    have sv: "save_shard (Train_slice part (slice_counter st1))
                (out_input_ids st1) (out_position_ids st1) = Inr f"
      unfolding f_def using ne ok1
      by (intro save_shard_equal_rows [where n = n]) (simp_all add: rows_ok_def)
    have step: "pack_loop ss bs eos part tokenized (b # bins) st
        = pack_loop ss bs eos part tokenized bins st2"
      unfolding unfold st2_def using True sv by simp
    have ok2: "rows_ok n st2"
      by (simp add: rows_ok_def st2_def)
    have ids2: "all_ids st2 = all_ids st1" and pos2: "all_pos st2 = all_pos st1"
      by (simp_all add: all_ids_def all_pos_def st2_def f_def)
    obtain st' where "pack_loop ss bs eos part tokenized bins st2 = Inr st'"
      and "rows_ok n st'" and "all_ids st' = all_ids st2 @ map I bins"
      and "all_pos st' = all_pos st2 @ map P bins"
      using Cons.IH [OF rest ok2] by blast
    then show ?thesis
      unfolding step by (simp add: ids1 pos1 ids2 pos2)
  qed
qed

lemma packer_blocks:
  assumes "\<forall>b \<in> set (fst (first_fit bs (indexed_lengths lengths))).
             build_block bs eos tokenized b = Inr (I b, P b)
             \<and> length (I b) = n \<and> length (P b) = n"
  shows "\<exists>fs. packer ss bs eos part tokenized lengths = Inr fs
           \<and> concat (map (\<lambda>f. input_ids (snd f)) fs)
               = map I (fst (first_fit bs (indexed_lengths lengths)))
           \<and> concat (map (\<lambda>f. position_ids (snd f)) fs)
               = map P (fst (first_fit bs (indexed_lengths lengths)))"
proof -
  let ?bins = "fst (first_fit bs (indexed_lengths lengths))"
  let ?st0 = "\<lparr>out_input_ids = [], out_position_ids = [], slice_counter = 0, files = []\<rparr>"
  have "rows_ok n ?st0" by (simp add: rows_ok_def)
  then obtain st' where run: "pack_loop ss bs eos part tokenized ?bins ?st0 = Inr st'"
    and ok: "rows_ok n st'" and ids: "all_ids st' = all_ids ?st0 @ map I ?bins"
    and pos: "all_pos st' = all_pos ?st0 @ map P ?bins"
    using pack_loop_blocks [OF assms, of ?st0 ss part] by blast
  show ?thesis
  proof (cases "length (out_input_ids st') > 0")
    case False
    then have "out_input_ids st' = []" "out_position_ids st' = []"
      using ok by (simp_all add: rows_ok_def)
    then show ?thesis
      using run ids pos by (simp add: packer_def all_ids_def all_pos_def)
  next
    case True
    then have ne: "out_input_ids st' \<noteq> []" "out_position_ids st' \<noteq> []"
      using ok by (auto simp: rows_ok_def)
    have "save_shard (Train_rest part) (out_input_ids st') (out_position_ids st')
        = Inr (Train_rest part,
               \<lparr>input_ids = out_input_ids st', position_ids = out_position_ids st'\<rparr>)"
      using ne ok by (intro save_shard_equal_rows [where n = n]) (simp_all add: rows_ok_def)
    then show ?thesis
      using run ids pos True by (simp add: packer_def all_ids_def all_pos_def)
  qed
qed

lemma packed_bin_facts:
  assumes "lengths = map (\<lambda>s. int (length s)) tokenized"
    and "b \<in> set (fst (first_fit bs (indexed_lengths lengths)))"
  shows "\<forall>x \<in> set b. snd x < length tokenized"
    and "\<forall>x \<in> set b. fst x = int (length (tokenized ! snd x))"
    and "\<forall>x \<in> set b. 0 \<le> fst x"
    and "int (length (member_ids tokenized b)) = occupied b"
    and "int (length (member_pos b)) = occupied b"
    and "build_block bs eos tokenized b =
           Inr (member_ids tokenized b @ replicate (nat (bs - occupied b)) eos,
                member_pos b @ replicate (nat (bs - occupied b)) 0)"
proof -
  have m: "\<forall>x \<in> set b. snd x < length lengths \<and> fst x = lengths ! snd x"
    using first_fit_members [OF assms(2)] by simp
  show r: "\<forall>x \<in> set b. snd x < length tokenized"
    using m assms(1) by simp
  show e: "\<forall>x \<in> set b. fst x = int (length (tokenized ! snd x))"
    using m assms(1) by simp
  then show n: "\<forall>x \<in> set b. 0 \<le> fst x"
    by simp
  show li: "int (length (member_ids tokenized b)) = occupied b"
    using e by (rule length_member_ids)
  show "int (length (member_pos b)) = occupied b"
    using n by (rule length_member_pos)
  show "build_block bs eos tokenized b =
           Inr (member_ids tokenized b @ replicate (nat (bs - occupied b)) eos,
                member_pos b @ replicate (nat (bs - occupied b)) 0)"
    using build_block_in_range [OF r, of bs eos] li by simp
qed

lemma packed_bin_full:
  assumes "lengths = map (\<lambda>s. int (length s)) tokenized"
    and "\<forall>s \<in> set tokenized. int (length s) \<le> bs"
    and "b \<in> set (fst (first_fit bs (indexed_lengths lengths)))"
  shows "occupied b \<le> bs"
    and "length (member_ids tokenized b @ replicate (nat (bs - occupied b)) eos) = nat bs"
    and "length (member_pos b @ replicate (nat (bs - occupied b)) 0) = nat bs"
    and "0 \<le> bs"
proof -
  have "\<forall>l \<in> set lengths. l \<le> bs"
    using assms(1,2) by auto
  then show le: "occupied b \<le> bs"
    using assms(3) by (intro first_fit_occupied [where lengths = lengths]) simp_all
  have li: "int (length (member_ids tokenized b)) = occupied b"
    and lp: "int (length (member_pos b)) = occupied b"
    using packed_bin_facts(4,5) [OF assms(1,3)] by simp_all
  show "length (member_ids tokenized b @ replicate (nat (bs - occupied b)) eos) = nat bs"
    using le li by simp
  show "length (member_pos b @ replicate (nat (bs - occupied b)) 0) = nat bs"
    using le lp by simp
  show "0 \<le> bs" using le li by linarith
qed

lemma packer_rows:
  assumes "lengths = map (\<lambda>s. int (length s)) tokenized"
    and "\<forall>s \<in> set tokenized. int (length s) \<le> bs"
  shows "\<exists>fs. packer ss bs eos part tokenized lengths = Inr fs
     \<and> concat (map (\<lambda>f. input_ids (snd f)) fs)
         = map (\<lambda>b. member_ids tokenized b @ replicate (nat (bs - occupied b)) eos)
             (fst (first_fit bs (indexed_lengths lengths)))
     \<and> concat (map (\<lambda>f. position_ids (snd f)) fs)
         = map (\<lambda>b. member_pos b @ replicate (nat (bs - occupied b)) 0)
             (fst (first_fit bs (indexed_lengths lengths)))"
proof -
  let ?bins = "fst (first_fit bs (indexed_lengths lengths))"
  let ?I = "\<lambda>b. member_ids tokenized b @ replicate (nat (bs - occupied b)) eos"
  let ?P = "\<lambda>b. member_pos b @ replicate (nat (bs - occupied b)) 0"
  have "\<forall>b \<in> set ?bins. build_block bs eos tokenized b = Inr (?I b, ?P b)
      \<and> length (?I b) = nat bs \<and> length (?P b) = nat bs"
    using packed_bin_facts(6) [OF assms(1)] packed_bin_full(2,3) [OF assms]
    by blast
  then show ?thesis by (rule packer_blocks)
qed

section \<open>Claims on the emitted blocks\<close>

text \<open>
  C1. Let every sub-sequence of the batch have at most \<open>BLOCK_SIZE\<close> tokens (and
  \<open>lengths\<close> hold their lengths, as the splitter leaves them). Then the packer returns
  without an error, and the rows of the shards it writes are, in order, the blocks of the
  bins: each row of token ids is the concatenation of the bin's member sub-sequences
  followed by terminator tokens only, each row of positions is the bin's positions
  followed by zeros only; the occupied prefix has at most \<open>BLOCK_SIZE\<close> entries and
  each row has exactly \<open>BLOCK_SIZE\<close> entries.
\<close>

theorem emitted_blocks_padded_to_block_size:
  assumes "lengths = map (\<lambda>s. int (length s)) tokenized"
    and "\<forall>s \<in> set tokenized. int (length s) \<le> bs"
  shows "\<exists>fs. packer ss bs eos part tokenized lengths = Inr fs
     \<and> concat (map (\<lambda>f. input_ids (snd f)) fs)
         = map (\<lambda>b. member_ids tokenized b @ replicate (nat (bs - occupied b)) eos)
             (fst (first_fit bs (indexed_lengths lengths)))
     \<and> concat (map (\<lambda>f. position_ids (snd f)) fs)
         = map (\<lambda>b. member_pos b @ replicate (nat (bs - occupied b)) 0)
             (fst (first_fit bs (indexed_lengths lengths)))
     \<and> (\<forall>b \<in> set (fst (first_fit bs (indexed_lengths lengths))).
          int (length (member_ids tokenized b)) = occupied b
          \<and> int (length (member_pos b)) = occupied b
          \<and> occupied b \<le> bs
          \<and> int (length (member_ids tokenized b @ replicate (nat (bs - occupied b)) eos)) = bs
          \<and> int (length (member_pos b @ replicate (nat (bs - occupied b)) 0)) = bs)"
proof -
  let ?bins = "fst (first_fit bs (indexed_lengths lengths))"
  let ?I = "\<lambda>b. member_ids tokenized b @ replicate (nat (bs - occupied b)) eos"
  let ?P = "\<lambda>b. member_pos b @ replicate (nat (bs - occupied b)) 0"
  have blocks: "\<forall>b \<in> set ?bins. build_block bs eos tokenized b = Inr (?I b, ?P b)
      \<and> length (?I b) = nat bs \<and> length (?P b) = nat bs"
    using packed_bin_facts(6) [OF assms(1)] packed_bin_full(2,3) [OF assms]
    by blast
  have files: "\<exists>fs. packer ss bs eos part tokenized lengths = Inr fs
     \<and> concat (map (\<lambda>f. input_ids (snd f)) fs) = map ?I ?bins
     \<and> concat (map (\<lambda>f. position_ids (snd f)) fs) = map ?P ?bins"
    using blocks by (rule packer_blocks)
  have each: "\<forall>b \<in> set ?bins.
          int (length (member_ids tokenized b)) = occupied b
          \<and> int (length (member_pos b)) = occupied b
          \<and> occupied b \<le> bs
          \<and> int (length (?I b)) = bs \<and> int (length (?P b)) = bs"
  proof
    fix b assume b: "b \<in> set ?bins"
    have "0 \<le> bs" using packed_bin_full(4) [OF assms b] .
    then show "int (length (member_ids tokenized b)) = occupied b
          \<and> int (length (member_pos b)) = occupied b
          \<and> occupied b \<le> bs
          \<and> int (length (?I b)) = bs \<and> int (length (?P b)) = bs"
      using packed_bin_facts(4,5) [OF assms(1) b] packed_bin_full(1,3) [OF assms b]
        packed_bin_full(2) [OF assms b, where eos = eos]
      by (simp del: length_append length_replicate)
  qed
  show ?thesis using files each by blast
qed

theorem emitted_blocks_padded_to_block_size_witness:
  "packer 5 8 50256 0 [[1, 2, 3, 4, 50256], [5, 6, 50256], [7, 8, 50256], [9, 50256]] [5, 3, 3, 2]
     = Inr [(Train_rest 0,
             \<lparr>input_ids = [[1, 2, 3, 4, 50256, 5, 6, 50256],
                           [7, 8, 50256, 9, 50256, 50256, 50256, 50256]],
              position_ids = [[0, 1, 2, 3, 4, 0, 1, 2], [0, 1, 2, 0, 1, 0, 0, 0]]\<rparr>)]
   \<and> map occupied (fst (first_fit 8 (indexed_lengths [5, 3, 3, 2]))) = [8, 5]"
proof -
  let ?tok = "[[1, 2, 3, 4, 50256], [5, 6, 50256], [7, 8, 50256], [9, 50256]] :: token list list"
  have h1: "[5, 3, 3, 2] = map (\<lambda>s. int (length s)) ?tok"
    by simp
  have h2: "\<forall>s \<in> set ?tok. int (length s) \<le> 8"
    by simp
  have ff: "first_fit 8 (indexed_lengths [5, 3, 3, 2])
        = ([[(5, 0), (3, 1)], [(3, 2), (2, 3)]], [0, 3])"
    by (simp add: indexed_lengths_def first_fit_def place.simps)
  obtain fs where r: "packer 5 8 50256 0 ?tok [5, 3, 3, 2] = Inr fs"
    and ids: "concat (map (\<lambda>f. input_ids (snd f)) fs)
         = map (\<lambda>b. member_ids ?tok b @ replicate (nat (8 - occupied b)) 50256)
             (fst (first_fit 8 (indexed_lengths [5, 3, 3, 2])))"
    using emitted_blocks_padded_to_block_size [OF h1 h2, where ss = 5 and eos = 50256 and part = 0]
    by blast
  have "packer 5 8 50256 0 ?tok [5, 3, 3, 2]
     = Inr [(Train_rest 0,
             \<lparr>input_ids = [[1, 2, 3, 4, 50256, 5, 6, 50256],
                           [7, 8, 50256, 9, 50256, 50256, 50256, 50256]],
              position_ids = [[0, 1, 2, 3, 4, 0, 1, 2], [0, 1, 2, 0, 1, 0, 0, 0]]\<rparr>)]"
    by (simp add: packer_def ff build_block_def save_shard_def stack_def upto_rec1
          numeral_3_eq_3)
  then show ?thesis
    using r ids by (simp add: ff occupied_def)
qed

text \<open>
  C8. Let the sub-sequences of the batch be non-empty and of at most \<open>BLOCK_SIZE\<close>
  tokens, with \<open>lengths\<close> their lengths; the splitter delivers every batch so. Then the
  packer returns without an error and the position rows of the shards it writes are, in
  order, those of the bins: the concatenation of the ranges \<open>0..length - 1\<close> of the
  bin's members, in the order in which they were put into the bin, followed by zeros.
  Within the occupied prefix a position is 0 exactly at the offsets at which a member
  starts.
\<close>

theorem positions_restart_at_member_starts:
  "(lengths = map (\<lambda>s. int (length s)) tokenized
    \<and> (\<forall>s \<in> set tokenized. s \<noteq> [] \<and> int (length s) \<le> bs)
    \<longrightarrow> (\<exists>fs. packer ss bs eos part tokenized lengths = Inr fs
          \<and> concat (map (\<lambda>f. position_ids (snd f)) fs)
              = map (\<lambda>b. member_pos b @ replicate (nat (bs - occupied b)) 0)
                  (fst (first_fit bs (indexed_lengths lengths))))
        \<and> (\<forall>b \<in> set (fst (first_fit bs (indexed_lengths lengths))).
              member_pos b = concat (map (\<lambda>(len, i). [0..int (length (tokenized ! i)) - 1]) b)
              \<and> length (member_pos b) = length (member_ids tokenized b)
              \<and> (\<forall>j < length (member_pos b).
                    ((member_pos b @ replicate (nat (bs - occupied b)) 0) ! j = 0)
                    = (j \<in> set (starts 0 b)))))
   \<and> (1 \<le> bs
    \<longrightarrow> snd (splitter bs sv eos raw) = map (\<lambda>s. int (length s)) (fst (splitter bs sv eos raw))
        \<and> (\<forall>s \<in> set (fst (splitter bs sv eos raw)). s \<noteq> [] \<and> int (length s) \<le> bs))"
proof (intro conjI impI)
  assume "1 \<le> bs"
  then have w: "snd (splitter bs sv eos raw) = map (\<lambda>s. int (length s)) (fst (splitter bs sv eos raw))
     \<and> (\<forall>s \<in> set (fst (splitter bs sv eos raw)). s \<noteq> [] \<and> int (length s) \<le> bs)"
    by (rule splitter_wf)
  show "snd (splitter bs sv eos raw) = map (\<lambda>s. int (length s)) (fst (splitter bs sv eos raw))"
    using w by simp
  show "\<forall>s \<in> set (fst (splitter bs sv eos raw)). s \<noteq> [] \<and> int (length s) \<le> bs"
    using w by simp
next
  assume a: "lengths = map (\<lambda>s. int (length s)) tokenized
    \<and> (\<forall>s \<in> set tokenized. s \<noteq> [] \<and> int (length s) \<le> bs)"
  then have h1: "lengths = map (\<lambda>s. int (length s)) tokenized"
    and h2: "\<forall>s \<in> set tokenized. int (length s) \<le> bs"
    and h3: "\<forall>s \<in> set tokenized. s \<noteq> []"
    by simp_all
  let ?bins = "fst (first_fit bs (indexed_lengths lengths))"
  let ?I = "\<lambda>b. member_ids tokenized b @ replicate (nat (bs - occupied b)) eos"
  let ?P = "\<lambda>b. member_pos b @ replicate (nat (bs - occupied b)) 0"
  have blocks: "\<forall>b \<in> set ?bins. build_block bs eos tokenized b = Inr (?I b, ?P b)
      \<and> length (?I b) = nat bs \<and> length (?P b) = nat bs"
    using packed_bin_facts(6) [OF h1] packed_bin_full(2,3) [OF h1 h2]
    by blast
  have "\<exists>fs. packer ss bs eos part tokenized lengths = Inr fs
     \<and> concat (map (\<lambda>f. input_ids (snd f)) fs) = map ?I ?bins
     \<and> concat (map (\<lambda>f. position_ids (snd f)) fs) = map ?P ?bins"
    using blocks by (rule packer_blocks)
  then show "\<exists>fs. packer ss bs eos part tokenized lengths = Inr fs
          \<and> concat (map (\<lambda>f. position_ids (snd f)) fs) = map ?P ?bins"
    by blast
  show "\<forall>b \<in> set ?bins.
       member_pos b = concat (map (\<lambda>(len, i). [0..int (length (tokenized ! i)) - 1]) b)
       \<and> length (member_pos b) = length (member_ids tokenized b)
       \<and> (\<forall>j < length (member_pos b). (?P b ! j = 0) = (j \<in> set (starts 0 b)))"
  proof
    fix b assume b: "b \<in> set ?bins"
    have r: "\<forall>x \<in> set b. snd x < length tokenized"
      and e: "\<forall>x \<in> set b. fst x = int (length (tokenized ! snd x))"
      using packed_bin_facts(1,2) [OF h1 b] by simp_all
    have pos: "\<forall>x \<in> set b. 1 \<le> fst x"
    proof
      fix x assume x: "x \<in> set b"
      then have "tokenized ! snd x \<in> set tokenized" using r by simp
      then have "tokenized ! snd x \<noteq> []" using h3 by blast
      then have "1 \<le> int (length (tokenized ! snd x))"
        by (cases "tokenized ! snd x") simp_all
      then show "1 \<le> fst x" using e x by simp
    qed
    have "map (\<lambda>(len, i). [0..len - 1]) b
        = map (\<lambda>(len, i). [0..int (length (tokenized ! i)) - 1]) b"
      using e by (intro map_cong) auto
    then have m: "member_pos b
        = concat (map (\<lambda>(len, i). [0..int (length (tokenized ! i)) - 1]) b)"
      unfolding member_pos_def by (rule arg_cong [where f = concat])
    have l: "length (member_pos b) = length (member_ids tokenized b)"
      using packed_bin_facts(4,5) [OF h1 b] by simp
    have z: "\<forall>j < length (member_pos b). (?P b ! j = 0) = (j \<in> set (starts 0 b))"
    proof (intro allI impI)
      fix j assume j: "j < length (member_pos b)"
      have "(member_pos b ! j = 0) = (0 + j \<in> set (starts 0 b))"
        using pos j by (rule member_pos_zero_iff)
      then show "(?P b ! j = 0) = (j \<in> set (starts 0 b))"
        using j by (simp add: nth_append)
    qed
    show "member_pos b = concat (map (\<lambda>(len, i). [0..int (length (tokenized ! i)) - 1]) b)
       \<and> length (member_pos b) = length (member_ids tokenized b)
       \<and> (\<forall>j < length (member_pos b). (?P b ! j = 0) = (j \<in> set (starts 0 b)))"
      using m l z by blast
  qed
qed

theorem positions_restart_at_member_starts_witness:
  "splitter 8 13 50256 [[1, 2, 3, 4], [5, 6], [7, 8], [9]]
     = ([[1, 2, 3, 4, 50256], [5, 6, 50256], [7, 8, 50256], [9, 50256]], [5, 3, 3, 2])
   \<and> first_fit 8 (indexed_lengths [5, 3, 3, 2])
        = ([[(5, 0), (3, 1)], [(3, 2), (2, 3)]], [0, 3])
   \<and> member_pos [(3, 2), (2, 3)] @ replicate (nat (8 - occupied [(3, 2), (2, 3)])) 0
        = [0, 1, 2, 0, 1, 0, 0, 0]
   \<and> starts 0 [(3, 2), (2, 3)] = [0, 3]
   \<and> (([0, 1, 2, 0, 1, 0, 0, 0 :: int] ! 3 = 0) = (3 \<in> set (starts 0 [(3, 2), (2, 3)])))
   \<and> (([0, 1, 2, 0, 1, 0, 0, 0 :: int] ! 4 = 0) = (4 \<in> set (starts 0 [(3, 2), (2, 3)])))"
proof -
  let ?tok = "[[1, 2, 3, 4, 50256], [5, 6, 50256], [7, 8, 50256], [9, 50256]] :: token list list"
  let ?b = "[(3, 2), (2, 3)] :: bin"
  have sp: "splitter 8 13 50256 [[1, 2, 3, 4], [5, 6], [7, 8], [9]] = (?tok, [5, 3, 3, 2])"
    by (simp add: splitter_def)
  have h: "[5, 3, 3, 2] = map (\<lambda>s. int (length s)) ?tok
      \<and> (\<forall>s \<in> set ?tok. s \<noteq> [] \<and> int (length s) \<le> 8)"
    by simp
  have ff: "first_fit 8 (indexed_lengths [5, 3, 3, 2])
        = ([[(5, 0), (3, 1)], [(3, 2), (2, 3)]], [0, 3])"
    by (simp add: indexed_lengths_def first_fit_def place.simps)
  have mp: "member_pos ?b @ replicate (nat (8 - occupied ?b)) 0 = [0, 1, 2, 0, 1, 0, 0, 0]"
    by (simp add: member_pos_def occupied_def upto_rec1 numeral_3_eq_3)
  have len: "length (member_pos ?b) = 5"
    by (simp add: member_pos_def upto_rec1)
  have "\<forall>b \<in> set (fst (first_fit 8 (indexed_lengths [5, 3, 3, 2]))).
          \<forall>j < length (member_pos b).
            ((member_pos b @ replicate (nat (8 - occupied b)) 0) ! j = 0)
            = (j \<in> set (starts 0 b))"
    using positions_restart_at_member_starts
      [where lengths = "[5, 3, 3, 2]" and tokenized = ?tok and bs = 8 and ss = 5
         and eos = 50256 and part = 0 and sv = 13 and raw = "[]"] h
    by blast
  then have "\<forall>j < length (member_pos ?b).
            ((member_pos ?b @ replicate (nat (8 - occupied ?b)) 0) ! j = 0)
            = (j \<in> set (starts 0 ?b))"
    by (simp add: ff)
  then have all: "\<forall>j < 5. ([0, 1, 2, 0, 1, 0, 0, 0 :: int] ! j = 0) = (j \<in> set (starts 0 ?b))"
    unfolding mp len .
  have "([0, 1, 2, 0, 1, 0, 0, 0 :: int] ! 3 = 0) = (3 \<in> set (starts 0 ?b))"
    using all by (rule allE [where x = 3]) simp
  moreover have "([0, 1, 2, 0, 1, 0, 0, 0 :: int] ! 4 = 0) = (4 \<in> set (starts 0 ?b))"
    using all by (rule allE [where x = 4]) simp
  moreover have "starts 0 ?b = [0, 3]"
    by simp
  ultimately show ?thesis
    using sp ff mp by blast
qed

section \<open>Claims on the first-fit scan\<close>

text \<open>
  C5. The sequences are taken in descending order of length (\<open>indexed_lengths\<close> is a
  rearrangement of the indexed lengths, sorted by descending length) and placed one
  after the other, from no bins at all. A sequence goes into the first bin, in creation
  order, whose free capacity is at least its length: the pair is appended to that bin and
  the free capacity shrinks by the length. When no bin fits, a new bin with free capacity
  \<open>BLOCK_SIZE - length\<close> is opened behind the others. The blocks the packer writes are
  the bins of this placement, one block for each bin, in the order of creation. With
  \<open>BLOCK_SIZE = 8\<close> and four sequences of the lengths 5, 3, 3, 2 the placement gives
  two bins, and the packer writes exactly two blocks: the first holds the first and the
  second sequence and is occupied by 8 tokens, the second holds the third and the fourth
  and is occupied by 5 tokens, followed by 3 terminator tokens.
\<close>

theorem first_fit_decreasing:
  "sorted_wrt (\<lambda>x y. fst x \<ge> fst y) (indexed_lengths lengths)
   \<and> mset (indexed_lengths lengths) = mset (map (\<lambda>(i, l). (l, i)) (enumerate 0 lengths))
   \<and> first_fit bs [] = ([], [])
   \<and> first_fit bs (items @ [(len, index)]) = place bs (len, index) (first_fit bs items)
   \<and> (k < length bins \<and> len \<le> bin_space ! k \<and> (\<forall>j < k. bin_space ! j < len)
      \<longrightarrow> place bs (len, index) (bins, bin_space)
            = (bins[k := bins ! k @ [(len, index)]], bin_space[k := bin_space ! k - len]))
   \<and> ((\<forall>j < length bins'. bin_space' ! j < len')
      \<longrightarrow> place bs (len', index') (bins', bin_space')
            = (bins' @ [[(len', index')]], bin_space' @ [bs - len']))
   \<and> first_fit 8 (indexed_lengths [5, 3, 3, 2])
        = ([[(5, 0), (3, 1)], [(3, 2), (2, 3)]], [0, 3])
   \<and> map occupied (fst (first_fit 8 (indexed_lengths [5, 3, 3, 2]))) = [8, 5]
   \<and> (lengths = map (\<lambda>s. int (length s)) tokenized
        \<and> (\<forall>s \<in> set tokenized. int (length s) \<le> bs)
      \<longrightarrow> (\<exists>fs. packer ss bs eos part tokenized lengths = Inr fs
            \<and> concat (map (\<lambda>f. input_ids (snd f)) fs)
                = map (\<lambda>b. member_ids tokenized b @ replicate (nat (bs - occupied b)) eos)
                    (fst (first_fit bs (indexed_lengths lengths)))
            \<and> concat (map (\<lambda>f. position_ids (snd f)) fs)
                = map (\<lambda>b. member_pos b @ replicate (nat (bs - occupied b)) 0)
                    (fst (first_fit bs (indexed_lengths lengths)))))
   \<and> (map (\<lambda>s. int (length s)) toks = [5, 3, 3, 2]
      \<longrightarrow> (\<exists>fs. packer ss 8 eos part toks [5, 3, 3, 2] = Inr fs
            \<and> concat (map (\<lambda>f. input_ids (snd f)) fs)
                = [toks ! 0 @ toks ! 1, toks ! 2 @ toks ! 3 @ replicate 3 eos]
            \<and> concat (map (\<lambda>f. position_ids (snd f)) fs)
                = [[0, 1, 2, 3, 4, 0, 1, 2], [0, 1, 2, 0, 1, 0, 0, 0]]
            \<and> length (toks ! 0 @ toks ! 1) = 8
            \<and> length (toks ! 2 @ toks ! 3) = 5))"
proof (intro conjI impI)
  show "sorted_wrt (\<lambda>x y. fst x \<ge> fst y) (indexed_lengths lengths)"
    by (rule sorted_indexed_lengths)
  show "mset (indexed_lengths lengths) = mset (map (\<lambda>(i, l). (l, i)) (enumerate 0 lengths))"
    by (rule mset_indexed_lengths)
  show "first_fit bs [] = ([], [])"
    by (simp add: first_fit_def)
  show "first_fit bs (items @ [(len, index)]) = place bs (len, index) (first_fit bs items)"
    by (rule first_fit_snoc)
  show "first_fit 8 (indexed_lengths [5, 3, 3, 2])
        = ([[(5, 0), (3, 1)], [(3, 2), (2, 3)]], [0, 3])"
    by (rule scenario_1)
  show "map occupied (fst (first_fit 8 (indexed_lengths [5, 3, 3, 2]))) = [8, 5]"
    by (simp add: scenario_1 occupied_def)
next
  assume "k < length bins \<and> len \<le> bin_space ! k \<and> (\<forall>j < k. bin_space ! j < len)"
  then show "place bs (len, index) (bins, bin_space)
            = (bins[k := bins ! k @ [(len, index)]], bin_space[k := bin_space ! k - len])"
    by (intro place_fit) simp_all
next
  assume "\<forall>j < length bins'. bin_space' ! j < len'"
  then show "place bs (len', index') (bins', bin_space')
            = (bins' @ [[(len', index')]], bin_space' @ [bs - len'])"
    by (rule place_new)
next
  assume "lengths = map (\<lambda>s. int (length s)) tokenized
        \<and> (\<forall>s \<in> set tokenized. int (length s) \<le> bs)"
  then show "\<exists>fs. packer ss bs eos part tokenized lengths = Inr fs
            \<and> concat (map (\<lambda>f. input_ids (snd f)) fs)
                = map (\<lambda>b. member_ids tokenized b @ replicate (nat (bs - occupied b)) eos)
                    (fst (first_fit bs (indexed_lengths lengths)))
            \<and> concat (map (\<lambda>f. position_ids (snd f)) fs)
                = map (\<lambda>b. member_pos b @ replicate (nat (bs - occupied b)) 0)
                    (fst (first_fit bs (indexed_lengths lengths)))"
    by (intro packer_rows) simp_all
next
  assume m: "map (\<lambda>s. int (length s)) toks = [5, 3, 3, 2]"
  then obtain a b c d where toks: "toks = [a, b, c, d]"
    and la: "length a = 5" and lb: "length b = 3" and lc: "length c = 3" and ld: "length d = 2"
    by (auto simp: map_eq_Cons_conv)
  have h1: "[5, 3, 3, 2] = map (\<lambda>s. int (length s)) toks"
    using m by simp
  have h2: "\<forall>s \<in> set toks. int (length s) \<le> 8"
    using toks la lb lc ld by simp
  obtain fs where run: "packer ss 8 eos part toks [5, 3, 3, 2] = Inr fs"
    and ids: "concat (map (\<lambda>f. input_ids (snd f)) fs)
         = map (\<lambda>b. member_ids toks b @ replicate (nat (8 - occupied b)) eos)
             (fst (first_fit 8 (indexed_lengths [5, 3, 3, 2])))"
    and pos: "concat (map (\<lambda>f. position_ids (snd f)) fs)
         = map (\<lambda>b. member_pos b @ replicate (nat (8 - occupied b)) 0)
             (fst (first_fit 8 (indexed_lengths [5, 3, 3, 2])))"
    using packer_rows [OF h1 h2, of ss eos part] by blast
  have ids': "concat (map (\<lambda>f. input_ids (snd f)) fs)
      = [toks ! 0 @ toks ! 1, toks ! 2 @ toks ! 3 @ replicate 3 eos]"
    unfolding ids scenario_1
    by (simp add: member_ids_def occupied_def toks)
  have pos': "concat (map (\<lambda>f. position_ids (snd f)) fs)
      = [[0, 1, 2, 3, 4, 0, 1, 2], [0, 1, 2, 0, 1, 0, 0, 0]]"
    unfolding pos scenario_1
    by (simp add: member_pos_def occupied_def upto_rec1 numeral_3_eq_3)
  have "length (toks ! 0 @ toks ! 1) = 8" and "length (toks ! 2 @ toks ! 3) = 5"
    using toks la lb lc ld by simp_all
  then show "\<exists>fs. packer ss 8 eos part toks [5, 3, 3, 2] = Inr fs
            \<and> concat (map (\<lambda>f. input_ids (snd f)) fs)
                = [toks ! 0 @ toks ! 1, toks ! 2 @ toks ! 3 @ replicate 3 eos]
            \<and> concat (map (\<lambda>f. position_ids (snd f)) fs)
                = [[0, 1, 2, 3, 4, 0, 1, 2], [0, 1, 2, 0, 1, 0, 0, 0]]
            \<and> length (toks ! 0 @ toks ! 1) = 8
            \<and> length (toks ! 2 @ toks ! 3) = 5"
    using run ids' pos' by blast
qed

theorem first_fit_decreasing_witness:
  "place 8 (3, 1) ([[(5, 0)]], [3]) = ([[(5, 0), (3, 1)]], [0])
   \<and> place 8 (3, 2) ([[(5, 0), (3, 1)]], [0]) = ([[(5, 0), (3, 1)], [(3, 2)]], [0, 5])
   \<and> first_fit 8 ([(5, 0)] @ [(3, 1)]) = place 8 (3, 1) (first_fit 8 [(5, 0)])
   \<and> packer 5000 8 50256 7
        [[10, 11, 12, 13, 50256], [20, 21, 50256], [30, 31, 50256], [40, 50256]] [5, 3, 3, 2]
      = Inr [(Train_rest 7,
              \<lparr>input_ids = [[10, 11, 12, 13, 50256, 20, 21, 50256],
                            [30, 31, 50256, 40, 50256, 50256, 50256, 50256]],
               position_ids = [[0, 1, 2, 3, 4, 0, 1, 2], [0, 1, 2, 0, 1, 0, 0, 0]]\<rparr>)]"
proof -
  let ?tok = "[[10, 11, 12, 13, 50256], [20, 21, 50256], [30, 31, 50256], [40, 50256]]
                :: token list list"
  have fit: "(0 :: nat) < length [[(5 :: int, 0 :: nat)]] \<and> (3 :: int) \<le> [3] ! 0
      \<and> (\<forall>j < (0 :: nat). [3 :: int] ! j < 3)"
    by simp
  have new: "\<forall>j < length [[(5 :: int, 0 :: nat), (3, 1)]]. [0 :: int] ! j < 3"
    by simp
  have gen: "[5, 3, 3, 2] = map (\<lambda>s. int (length s)) ?tok
      \<and> (\<forall>s \<in> set ?tok. int (length s) \<le> 8)"
    by simp
  have scen: "map (\<lambda>s. int (length s)) ?tok = [5, 3, 3, 2]"
    by simp
  note t = first_fit_decreasing
      [where bs = 8 and k = 0 and bins = "[[(5, 0)]]" and bin_space = "[3]" and len = 3
         and index = 1 and bins' = "[[(5, 0), (3, 1)]]" and bin_space' = "[0]" and len' = 3
         and index' = 2 and items = "[(5, 0)]" and lengths = "[5, 3, 3, 2]"
         and tokenized = ?tok and toks = ?tok and ss = 5000 and eos = 50256 and part = 7]
  have p1: "place 8 (3, 1) ([[(5, 0)]], [3]) = ([[(5, 0), (3, 1)]], [0])"
    using t fit by simp
  have p2: "place 8 (3, 2) ([[(5, 0), (3, 1)]], [0]) = ([[(5, 0), (3, 1)], [(3, 2)]], [0, 5])"
    using t new by simp
  have p3: "first_fit 8 ([(5, 0)] @ [(3, 1)]) = place 8 (3, 1) (first_fit 8 [(5, 0)])"
    using t by blast
  obtain fs where run: "packer 5000 8 50256 7 ?tok [5, 3, 3, 2] = Inr fs"
    and ids: "concat (map (\<lambda>f. input_ids (snd f)) fs)
                = [?tok ! 0 @ ?tok ! 1, ?tok ! 2 @ ?tok ! 3 @ replicate 3 50256]"
    using t scen by blast
  have "packer 5000 8 50256 7 ?tok [5, 3, 3, 2]
      = Inr [(Train_rest 7,
              \<lparr>input_ids = [[10, 11, 12, 13, 50256, 20, 21, 50256],
                            [30, 31, 50256, 40, 50256, 50256, 50256, 50256]],
               position_ids = [[0, 1, 2, 3, 4, 0, 1, 2], [0, 1, 2, 0, 1, 0, 0, 0]]\<rparr>)]"
    by (simp add: packer_def scenario_1 build_block_def save_shard_def stack_def upto_rec1
          numeral_3_eq_3)
  then show ?thesis
    using p1 p2 p3 run ids by blast
qed

section \<open>The second pass\<close>

lemma files_loop_Nil: "files_loop ss [] st = Some st"
  by (simp add: files_loop.simps)

lemma files_loop_snoc:
  "files_loop ss (fs @ [f]) st =
     (case file_step ss f st of None \<Rightarrow> None | Some st' \<Rightarrow> files_loop ss fs st')"
  by (subst files_loop.simps) (simp split: option.split)

lemma emit_loop_rule:
  assumes "0 < ss" and "I st" and "buffer_length st = length (concat (input_buffer st))"
    and "\<And>s. I s \<Longrightarrow> buffer_length s = length (concat (input_buffer s))
            \<Longrightarrow> ss \<le> buffer_length s \<Longrightarrow> I (emit ss s)"
  shows "\<exists>st'. emit_loop ss st = Some st' \<and> I st' \<and> buffer_length st' < ss
           \<and> buffer_length st' = length (concat (input_buffer st'))"
  using assms(2,3)
proof (induction "buffer_length st" arbitrary: st rule: less_induct)
  case less
  show ?case
  proof (cases "ss \<le> buffer_length st")
    case False
    then show ?thesis
      using less.prems by (subst emit_loop.simps) simp
  next
    case True
    have bl: "buffer_length (emit ss st) = length (concat (input_buffer (emit ss st)))"
      by (simp add: emit_def Let_def)
    have "buffer_length (emit ss st) = buffer_length st - ss"
      using less.prems(2) by (simp add: emit_def Let_def)
    then have dec: "buffer_length (emit ss st) < buffer_length st"
      using True assms(1) by simp
    have "I (emit ss st)"
      using less.prems True by (intro assms(4)) simp_all
    then obtain st' where "emit_loop ss (emit ss st) = Some st'" and "I st'"
      and "buffer_length st' < ss" and "buffer_length st' = length (concat (input_buffer st'))"
      using less.hyps [OF dec _ bl] by blast
    then show ?thesis
      using True by (subst emit_loop.simps) simp
  qed
qed

lemma reslice_inv_append:
  assumes "reslice_inv ss consumed st"
    and "length (position_ids d) = length (input_ids d)"
  shows "reslice_inv ss (consumed @ [(p, d)]) (append_file d st)"
proof -
  have eq: "length (concat (pos_buffer st)) = length (concat (input_buffer st))"
    using assms(1) by (simp add: reslice_inv_def)
  have "zip (concat (input_buffer st) @ input_ids d) (concat (pos_buffer st) @ position_ids d)
      = zip (concat (input_buffer st)) (concat (pos_buffer st)) @ blocks d"
    using eq by (simp add: blocks_def)
  then show ?thesis
    using assms by (simp add: reslice_inv_def append_file_def Let_def)
qed

lemma reslice_inv_emit:
  assumes "reslice_inv ss consumed st" and "ss \<le> buffer_length st"
  shows "reslice_inv ss consumed (emit ss st)"
proof -
  let ?fi = "concat (input_buffer st)"
  let ?fp = "concat (pos_buffer st)"
  have bl: "buffer_length st = length ?fi" and eq: "length ?fp = length ?fi"
    and all: "concat (map (\<lambda>f. blocks (snd f)) (written st)) @ zip ?fi ?fp
          = concat (map (\<lambda>f. blocks (snd f)) consumed)"
    and full: "\<forall>f \<in> set (written st). length (blocks (snd f)) = ss"
    and names: "map fst (written st) = map Train [0..<length (written st)]"
    and cnt: "counter st = length (written st)"
    using assms(1) by (simp_all add: reslice_inv_def)
  have z: "zip (take ss ?fi) (take ss ?fp) @ zip (drop ss ?fi) (drop ss ?fp) = zip ?fi ?fp"
    by (simp add: take_zip [symmetric] drop_zip [symmetric])
  have len: "length (zip (take ss ?fi) (take ss ?fp)) = ss"
    using assms(2) bl eq by simp
  have a: "concat (map (\<lambda>f. blocks (snd f)) (written (emit ss st)))
            @ zip (concat (input_buffer (emit ss st))) (concat (pos_buffer (emit ss st)))
          = concat (map (\<lambda>f. blocks (snd f)) consumed)"
    using all z by (simp add: emit_def Let_def blocks_def)
  have b: "\<forall>f \<in> set (written (emit ss st)). length (blocks (snd f)) = ss"
    using full len by (simp add: emit_def Let_def blocks_def)
  have c: "map fst (written (emit ss st)) = map Train [0..<length (written (emit ss st))]"
    using names cnt by (simp add: emit_def Let_def)
  have d: "counter (emit ss st) = length (written (emit ss st))"
    using cnt by (simp add: emit_def Let_def)
  have e: "buffer_length (emit ss st) = length (concat (input_buffer (emit ss st)))"
    and f: "length (concat (pos_buffer (emit ss st))) = length (concat (input_buffer (emit ss st)))"
    using eq by (simp_all add: emit_def Let_def)
  show ?thesis
    unfolding reslice_inv_def using a b c d e f by blast
qed

lemma file_step_inv:
  assumes "0 < ss" and "reslice_inv ss consumed st"
    and "length (position_ids d) = length (input_ids d)"
  shows "\<exists>st'. file_step ss (p, d) st = Some st' \<and> reslice_inv ss (consumed @ [(p, d)]) st'
           \<and> buffer_length st' < ss \<and> removed st' = removed st @ [p]"
proof -
  have i0: "reslice_inv ss (consumed @ [(p, d)]) (append_file d st)"
    using assms(2,3) by (rule reslice_inv_append)
  have r0: "removed (append_file d st) = removed st"
    by (simp add: append_file_def Let_def)
  let ?I = "\<lambda>s. reslice_inv ss (consumed @ [(p, d)]) s \<and> removed s = removed st"
  have "\<exists>st'. emit_loop ss (append_file d st) = Some st' \<and> ?I st' \<and> buffer_length st' < ss
           \<and> buffer_length st' = length (concat (input_buffer st'))"
  proof (rule emit_loop_rule [where I = ?I])
    show "0 < ss" by (rule assms(1))
    show "?I (append_file d st)" using i0 r0 by simp
    show "buffer_length (append_file d st) = length (concat (input_buffer (append_file d st)))"
      using i0 by (simp add: reslice_inv_def)
  next
    fix s
    assume "?I s" and "ss \<le> buffer_length s"
    then show "?I (emit ss s)"
      using reslice_inv_emit [of ss "consumed @ [(p, d)]" s] by (simp add: emit_def Let_def)
  qed
  then obtain st' where run: "emit_loop ss (append_file d st) = Some st'"
    and inv: "reslice_inv ss (consumed @ [(p, d)]) st'" and rm: "removed st' = removed st"
    and small: "buffer_length st' < ss"
    by blast
  let ?st'' = "st'\<lparr>removed := removed st' @ [p],
                    log := log st' @ [Removed (length (concat (input_buffer st')))]\<rparr>"
  have "file_step ss (p, d) st = Some ?st''"
    using run by (simp add: file_step_def)
  moreover have "reslice_inv ss (consumed @ [(p, d)]) ?st''"
    using inv by (simp add: reslice_inv_def)
  moreover have "buffer_length ?st'' < ss" using small by simp
  moreover have "removed ?st'' = removed st @ [p]" using rm by simp
  ultimately show ?thesis by blast
qed

lemma files_loop_inv:
  assumes "0 < ss" and "reslice_inv ss consumed st"
    and "\<forall>f \<in> set all_files. length (position_ids (snd f)) = length (input_ids (snd f))"
    and "all_files = [] \<longrightarrow> buffer_length st < ss"
  shows "\<exists>st'. files_loop ss all_files st = Some st'
           \<and> reslice_inv ss (consumed @ rev all_files) st'
           \<and> buffer_length st' < ss
           \<and> removed st' = removed st @ rev (map fst all_files)"
  using assms(2,3,4)
proof (induction all_files arbitrary: consumed st rule: rev_induct)
  case Nil
  then show ?case by (simp add: files_loop_Nil)
next
  case (snoc f fs)
  obtain p d where f: "f = (p, d)" by (cases f)
  have wf: "length (position_ids d) = length (input_ids d)"
    using snoc.prems(2) f by simp
  obtain st1 where step: "file_step ss (p, d) st = Some st1"
    and inv1: "reslice_inv ss (consumed @ [(p, d)]) st1"
    and small: "buffer_length st1 < ss" and rm: "removed st1 = removed st @ [p]"
    using file_step_inv [OF assms(1) snoc.prems(1) wf, of p] by blast
  have rest: "\<forall>f \<in> set fs. length (position_ids (snd f)) = length (input_ids (snd f))"
    using snoc.prems(2) by simp
  obtain st' where "files_loop ss fs st1 = Some st'"
    and "reslice_inv ss ((consumed @ [(p, d)]) @ rev fs) st'"
    and "buffer_length st' < ss" and "removed st' = removed st1 @ rev (map fst fs)"
    using snoc.IH [OF inv1 rest] small by blast
  then show ?case
    using step rm by (simp add: files_loop_snoc f)
qed

lemma log_ok_emit:
  assumes "log_ok ss s \<and> length (concat (input_buffer s)) \<le> 2 * ss - 2"
    and "ss \<le> buffer_length s"
  shows "log_ok ss (emit ss s) \<and> length (concat (input_buffer (emit ss s))) \<le> 2 * ss - 2"
  using assms by (auto simp: log_ok_def emit_def Let_def)

lemma file_step_log:
  assumes "log_ok ss st" and "length (concat (input_buffer st)) < ss"
    and "length (input_ids d) < ss"
  shows "\<exists>st'. file_step ss (p, d) st = Some st' \<and> log_ok ss st'
           \<and> length (concat (input_buffer st')) < ss \<and> removed st' = removed st @ [p]"
proof -
  have pos: "0 < ss" using assms(3) by simp
  let ?I = "\<lambda>s. (log_ok ss s \<and> length (concat (input_buffer s)) \<le> 2 * ss - 2)
      \<and> removed s = removed st"
  have "\<exists>st'. emit_loop ss (append_file d st) = Some st' \<and> ?I st' \<and> buffer_length st' < ss
           \<and> buffer_length st' = length (concat (input_buffer st'))"
  proof (rule emit_loop_rule [where I = ?I])
    show "0 < ss" by (rule pos)
    show "?I (append_file d st)"
      using assms by (auto simp: log_ok_def append_file_def Let_def)
    show "buffer_length (append_file d st) = length (concat (input_buffer (append_file d st)))"
      using assms(1) by (simp add: log_ok_def append_file_def Let_def)
  next
    fix s
    assume "?I s" and "ss \<le> buffer_length s"
    then show "?I (emit ss s)"
      using log_ok_emit [of ss s] by (simp add: emit_def Let_def)
  qed
  then obtain st' where run: "emit_loop ss (append_file d st) = Some st'"
    and ok: "log_ok ss st'" and small: "buffer_length st' < ss"
    and bl: "buffer_length st' = length (concat (input_buffer st'))"
    and rm: "removed st' = removed st"
    by blast
  let ?st'' = "st'\<lparr>removed := removed st' @ [p],
                    log := log st' @ [Removed (length (concat (input_buffer st')))]\<rparr>"
  have "file_step ss (p, d) st = Some ?st''"
    using run by (simp add: file_step_def)
  moreover have "log_ok ss ?st''"
    using ok small bl by (auto simp: log_ok_def)
  moreover have "length (concat (input_buffer ?st'')) < ss"
    using small bl by simp
  moreover have "removed ?st'' = removed st @ [p]"
    using rm by simp
  ultimately show ?thesis by blast
qed

lemma files_loop_log:
  assumes "log_ok ss st" and "all_files \<noteq> [] \<longrightarrow> length (concat (input_buffer st)) < ss"
    and "\<forall>f \<in> set all_files. length (input_ids (snd f)) < ss"
  shows "\<exists>st'. files_loop ss all_files st = Some st' \<and> log_ok ss st'
           \<and> removed st' = removed st @ rev (map fst all_files)"
  using assms
proof (induction all_files arbitrary: st rule: rev_induct)
  case Nil
  then show ?case by (simp add: files_loop_Nil)
next
  case (snoc f fs)
  obtain p d where f: "f = (p, d)" by (cases f)
  have d: "length (input_ids d) < ss" using snoc.prems(3) f by simp
  have b: "length (concat (input_buffer st)) < ss" using snoc.prems(2) by simp
  obtain st1 where step: "file_step ss (p, d) st = Some st1" and ok1: "log_ok ss st1"
    and small: "length (concat (input_buffer st1)) < ss"
    and rm1: "removed st1 = removed st @ [p]"
    using file_step_log [OF snoc.prems(1) b d, of p] by blast
  have rest: "\<forall>f \<in> set fs. length (input_ids (snd f)) < ss"
    using snoc.prems(3) by simp
  obtain st' where "files_loop ss fs st1 = Some st'" and "log_ok ss st'"
    and "removed st' = removed st1 @ rev (map fst fs)"
    using snoc.IH [OF ok1 _ rest] small by blast
  then show ?case
    using step rm1 by (simp add: files_loop_snoc f)
qed

section \<open>Claims on the second pass\<close>

text \<open>
  C2. Let \<open>SLICE_SIZE\<close> be positive and let each leftover shard hold as many rows of
  positions as of token ids (as every shard written by the first pass does). Then the run
  returns, and the blocks of the shards it has written, in the order of writing, followed
  by the blocks left in the buffer, are the blocks of the leftover shards in the order in
  which they were read: no block is lost, doubled or moved. Every shard written holds
  exactly \<open>SLICE_SIZE\<close> blocks, the shards are named by the successive counter values,
  fewer than \<open>SLICE_SIZE\<close> blocks stay in the buffer (they are written nowhere), and the
  numbers of blocks add up. Every path has been removed, in the order of reading.
\<close>

theorem reslicing_preserves_blocks:
  "0 < ss \<and> (\<forall>f \<in> set all_files. length (position_ids (snd f)) = length (input_ids (snd f)))
   \<longrightarrow> (\<exists>st. process_rest ss all_files = Some st
        \<and> concat (map (\<lambda>f. blocks (snd f)) (written st))
              @ zip (concat (input_buffer st)) (concat (pos_buffer st))
            = concat (map (\<lambda>f. blocks (snd f)) (rev all_files))
        \<and> (\<forall>f \<in> set (written st). length (blocks (snd f)) = ss)
        \<and> map fst (written st) = map Train [0..<length (written st)]
        \<and> length (zip (concat (input_buffer st)) (concat (pos_buffer st))) < ss
        \<and> sum_list (map (\<lambda>f. length (blocks (snd f))) (written st))
              + length (zip (concat (input_buffer st)) (concat (pos_buffer st)))
            = sum_list (map (\<lambda>f. length (blocks (snd f))) all_files)
        \<and> removed st = rev (map fst all_files))"
proof
  assume a: "0 < ss
    \<and> (\<forall>f \<in> set all_files. length (position_ids (snd f)) = length (input_ids (snd f)))"
  let ?st0 = "\<lparr>input_buffer = [], pos_buffer = [], buffer_length = 0, counter = 0,
        written = [], removed = [], log = []\<rparr> :: ('a, 'b) reslice_state"
  have i0: "reslice_inv ss [] ?st0"
    by (simp add: reslice_inv_def)
  have "all_files = [] \<longrightarrow> buffer_length ?st0 < ss"
    using a by simp
  then obtain st where run: "files_loop ss all_files ?st0 = Some st"
    and inv: "reslice_inv ss ([] @ rev all_files) st"
    and small: "buffer_length st < ss"
    and rm: "removed st = removed ?st0 @ rev (map fst all_files)"
    using files_loop_inv [of ss "[]" ?st0 all_files] a i0 by blast
  let ?z = "zip (concat (input_buffer st)) (concat (pos_buffer st))"
  have all: "concat (map (\<lambda>f. blocks (snd f)) (written st)) @ ?z
            = concat (map (\<lambda>f. blocks (snd f)) (rev all_files))"
    and full: "\<forall>f \<in> set (written st). length (blocks (snd f)) = ss"
    and names: "map fst (written st) = map Train [0..<length (written st)]"
    and bl: "buffer_length st = length (concat (input_buffer st))"
    and eq: "length (concat (pos_buffer st)) = length (concat (input_buffer st))"
    using inv by (simp_all add: reslice_inv_def)
  have rem: "length ?z < ss"
    using small bl eq by simp
  have "length (concat (map (\<lambda>f. blocks (snd f)) (written st)) @ ?z)
      = length (concat (map (\<lambda>f. blocks (snd f)) (rev all_files)))"
    using all by simp
  then have count: "sum_list (map (\<lambda>f. length (blocks (snd f))) (written st)) + length ?z
      = sum_list (map (\<lambda>f. length (blocks (snd f))) all_files)"
    by (simp add: length_concat comp_def rev_map [symmetric] del: length_zip)
  have "process_rest ss all_files = Some st"
    using run by (simp add: process_rest_def)
  then show "\<exists>st. process_rest ss all_files = Some st
        \<and> concat (map (\<lambda>f. blocks (snd f)) (written st))
              @ zip (concat (input_buffer st)) (concat (pos_buffer st))
            = concat (map (\<lambda>f. blocks (snd f)) (rev all_files))
        \<and> (\<forall>f \<in> set (written st). length (blocks (snd f)) = ss)
        \<and> map fst (written st) = map Train [0..<length (written st)]
        \<and> length (zip (concat (input_buffer st)) (concat (pos_buffer st))) < ss
        \<and> sum_list (map (\<lambda>f. length (blocks (snd f))) (written st))
              + length (zip (concat (input_buffer st)) (concat (pos_buffer st)))
            = sum_list (map (\<lambda>f. length (blocks (snd f))) all_files)
        \<and> removed st = rev (map fst all_files)"
    using all full names rem count rm by simp
qed

text \<open>
  C7. Let each leftover shard hold fewer than \<open>SLICE_SIZE\<close> blocks. Then the run returns,
  and at no change of the buffer does it hold more than \<open>2 * SLICE_SIZE - 1\<close> blocks:
  not after a shard has been appended, not after a full shard has been cut off. At each
  removal of a leftover shard, when its blocks are in and every full shard has been
  written, fewer than \<open>SLICE_SIZE\<close> blocks are in the buffer; there is one such moment
  for every leftover shard. The counter \<open>buffer_length\<close> agrees with the buffer.
\<close>

theorem rolling_buffer_bounded:
  "(\<forall>f \<in> set all_files. length (input_ids (snd f)) < ss)
   \<longrightarrow> (\<exists>st. process_rest ss all_files = Some st
        \<and> (\<forall>e \<in> set (log st). held e \<le> 2 * ss - 1)
        \<and> (\<forall>n. Removed n \<in> set (log st) \<longrightarrow> n < ss)
        \<and> length (filter is_removed (log st)) = length all_files
        \<and> buffer_length st = length (concat (input_buffer st)))"
proof
  assume a: "\<forall>f \<in> set all_files. length (input_ids (snd f)) < ss"
  let ?st0 = "\<lparr>input_buffer = [], pos_buffer = [], buffer_length = 0, counter = 0,
        written = [], removed = [], log = []\<rparr> :: ('a, 'b) reslice_state"
  have l0: "log_ok ss ?st0"
    by (simp add: log_ok_def)
  have "all_files \<noteq> [] \<longrightarrow> 0 < ss"
  proof
    assume "all_files \<noteq> []"
    then have "hd all_files \<in> set all_files" by simp
    then have "length (input_ids (snd (hd all_files))) < ss" using a by blast
    then show "0 < ss" by simp
  qed
  then have b0: "all_files \<noteq> [] \<longrightarrow> length (concat (input_buffer ?st0)) < ss"
    by simp
  obtain st where run: "files_loop ss all_files ?st0 = Some st" and ok: "log_ok ss st"
    and rmv: "removed st = removed ?st0 @ rev (map fst all_files)"
    using files_loop_log [OF l0 b0 a] by blast
  have rm: "length (removed st) = length all_files"
    using rmv by simp
  have "process_rest ss all_files = Some st"
    using run by (simp add: process_rest_def)
  then show "\<exists>st. process_rest ss all_files = Some st
        \<and> (\<forall>e \<in> set (log st). held e \<le> 2 * ss - 1)
        \<and> (\<forall>n. Removed n \<in> set (log st) \<longrightarrow> n < ss)
        \<and> length (filter is_removed (log st)) = length all_files
        \<and> buffer_length st = length (concat (input_buffer st))"
    using ok rm by (simp add: log_ok_def)
qed

theorem reslicing_preserves_blocks_witness:
  "process_rest 3
     [(Train_rest 1, \<lparr>input_ids = [5, 6, 7, 8, 9 :: nat], position_ids = [15, 16, 17, 18, 19 :: nat]\<rparr>),
      (Train_rest 0, \<lparr>input_ids = [1, 2, 3, 4], position_ids = [11, 12, 13, 14]\<rparr>)]
   = Some \<lparr>input_buffer = [[]], pos_buffer = [[]], buffer_length = 0, counter = 3,
       written =
         [(Train 0, \<lparr>input_ids = [1, 2, 3], position_ids = [11, 12, 13]\<rparr>),
          (Train 1, \<lparr>input_ids = [4, 5, 6], position_ids = [14, 15, 16]\<rparr>),
          (Train 2, \<lparr>input_ids = [7, 8, 9], position_ids = [17, 18, 19]\<rparr>)],
       removed = [Train_rest 0, Train_rest 1],
       log = [Appended 4, Emitted 1, Removed 1, Appended 6, Emitted 3, Emitted 0, Removed 0]\<rparr>"
proof -
  let ?A = "\<lparr>input_ids = [1, 2, 3, 4 :: nat], position_ids = [11, 12, 13, 14 :: nat]\<rparr>"
  let ?B = "\<lparr>input_ids = [5, 6, 7, 8, 9 :: nat], position_ids = [15, 16, 17, 18, 19 :: nat]\<rparr>"
  let ?files = "[(Train_rest 1, ?B), (Train_rest 0, ?A)]"
  have h: "(0 :: nat) < 3
      \<and> (\<forall>f \<in> set ?files. length (position_ids (snd f)) = length (input_ids (snd f)))"
    by simp
  obtain st where r: "process_rest 3 ?files = Some st"
    and rm: "removed st = rev (map fst ?files)"
    using reslicing_preserves_blocks [where ss = 3 and all_files = ?files] h by blast
  have "process_rest 3 ?files
   = Some \<lparr>input_buffer = [[]], pos_buffer = [[]], buffer_length = 0, counter = 3,
       written =
         [(Train 0, \<lparr>input_ids = [1, 2, 3], position_ids = [11, 12, 13]\<rparr>),
          (Train 1, \<lparr>input_ids = [4, 5, 6], position_ids = [14, 15, 16]\<rparr>),
          (Train 2, \<lparr>input_ids = [7, 8, 9], position_ids = [17, 18, 19]\<rparr>)],
       removed = [Train_rest 0, Train_rest 1],
       log = [Appended 4, Emitted 1, Removed 1, Appended 6, Emitted 3, Emitted 0, Removed 0]\<rparr>"
    by (simp add: process_rest_def files_loop.simps file_step_def append_file_def
          emit_loop.simps emit_def Let_def)
  then show ?thesis
    using r rm by simp
qed

theorem rolling_buffer_bounded_witness:
  "process_rest 3
     [(Train_rest 1, \<lparr>input_ids = [3, 4 :: nat], position_ids = [13, 14 :: nat]\<rparr>),
      (Train_rest 0, \<lparr>input_ids = [1, 2], position_ids = [11, 12]\<rparr>)]
   = Some \<lparr>input_buffer = [[4]], pos_buffer = [[14]], buffer_length = 1, counter = 1,
       written = [(Train 0, \<lparr>input_ids = [1, 2, 3], position_ids = [11, 12, 13]\<rparr>)],
       removed = [Train_rest 0, Train_rest 1],
       log = [Appended 2, Removed 2, Appended 4, Emitted 1, Removed 1]\<rparr>
   \<and> held (Appended 4) \<le> 2 * 3 - 1"
proof -
  let ?A = "\<lparr>input_ids = [1, 2 :: nat], position_ids = [11, 12 :: nat]\<rparr>"
  let ?B = "\<lparr>input_ids = [3, 4 :: nat], position_ids = [13, 14 :: nat]\<rparr>"
  let ?files = "[(Train_rest 1, ?B), (Train_rest 0, ?A)]"
  have h: "\<forall>f \<in> set ?files. length (input_ids (snd f)) < 3"
    by simp
  obtain st where r: "process_rest 3 ?files = Some st"
    and b: "\<forall>e \<in> set (log st). held e \<le> 2 * 3 - 1"
    using rolling_buffer_bounded [where ss = 3 and all_files = ?files] h by blast
  have e: "process_rest 3 ?files
   = Some \<lparr>input_buffer = [[4]], pos_buffer = [[14]], buffer_length = 1, counter = 1,
       written = [(Train 0, \<lparr>input_ids = [1, 2, 3], position_ids = [11, 12, 13]\<rparr>)],
       removed = [Train_rest 0, Train_rest 1],
       log = [Appended 2, Removed 2, Appended 4, Emitted 1, Removed 1]\<rparr>"
    by (simp add: process_rest_def files_loop.simps file_step_def append_file_def
          emit_loop.simps emit_def Let_def)
  then have "Appended 4 \<in> set (log st)"
    using r by auto
  then have "held (Appended 4) \<le> 2 * 3 - 1"
    using b by blast
  then show ?thesis
    using e by blast
qed

end
